theory Spec2Isabelle
  imports Complex_Main "HOL-Library.Word" "HOL-Library.Multiset"
begin

unbundle bit_operations_syntax

section \<open>tcreader: the terminal comic reader of \<^verbatim>\<open>src/libs/tcreader.cpp\<close>\<close>

text \<open>
  The definitions below embed the functions of \<^verbatim>\<open>tcreader.cpp\<close> that the claims are
  about: \<^verbatim>\<open>base64_encode\<close>, \<^verbatim>\<open>natural_sort_compare\<close>, the class
  \<^verbatim>\<open>ArchiveReader\<close>, \<^verbatim>\<open>ComicReader::load_page\<close>, the crop and chunk
  arithmetic of \<^verbatim>\<open>ComicReader::render_kitty\<close> and the key handling of
  \<^verbatim>\<open>ComicReader::run\<close>. Bytes (\<^verbatim>\<open>unsigned char\<close>) are 8-bit words.
  Every abnormal end of the C++ program that the embedded code can reach is a value of
  the type \<open>error\<close>.
\<close>

type_synonym byte = "8 word"

datatype error =
    OutOfRange      \<comment> \<open>\<^verbatim>\<open>std::out_of_range\<close> thrown by \<^verbatim>\<open>std::stoll\<close>\<close>
  | OutOfBounds     \<comment> \<open>an index outside its vector (undefined behaviour in C++)\<close>
  | DivisionByZero  \<comment> \<open>integer division by zero (a trap)\<close>
  | LengthError     \<comment> \<open>\<^verbatim>\<open>std::length_error\<close> thrown by the constructor of a vector\<close>

subsection \<open>\<^verbatim>\<open>base64_encode\<close> (lines 81-110)\<close>

definition base64_chars :: string where
  "base64_chars = ''ABCDEFGHIJKLMNOPQRSTUVWXYZabcdefghijklmnopqrstuvwxyz0123456789+/''"

text \<open>
  The four assignments to \<^verbatim>\<open>arr4\<close> from \<^verbatim>\<open>arr3\<close>. The C++ operands are promoted
  to \<^verbatim>\<open>int\<close> and the sums stay below 64, so the 8-bit operations give the same values.
\<close>

definition make_arr4 :: "byte list \<Rightarrow> byte list" where
  "make_arr4 arr3 =
     [drop_bit 2 (arr3 ! 0 AND 0xfc),
      push_bit 4 (arr3 ! 0 AND 0x03) + drop_bit 4 (arr3 ! 1 AND 0xf0),
      push_bit 2 (arr3 ! 1 AND 0x0f) + drop_bit 6 (arr3 ! 2 AND 0xc0),
      arr3 ! 2 AND 0x3f]"

text \<open>\<^verbatim>\<open>ret += base64_chars[arr4[j]]\<close> for each element of a prefix of \<^verbatim>\<open>arr4\<close>.\<close>

definition put_chars :: "byte list \<Rightarrow> string" where
  "put_chars xs = map (\<lambda>x. base64_chars ! unat x) xs"

text \<open>
  The \<^verbatim>\<open>while (len--)\<close> loop: the state is the fill index \<open>i\<close>, the array
  \<^verbatim>\<open>arr3\<close> and the string \<^verbatim>\<open>ret\<close>. The array is uninitialised in C++; no cell
  is read before it is written, so the model may start it at zero.
\<close>

fun encode_loop :: "byte list \<Rightarrow> nat \<Rightarrow> byte list \<Rightarrow> string \<Rightarrow> nat \<times> byte list \<times> string" where
  "encode_loop [] i arr3 ret = (i, arr3, ret)"
| "encode_loop (d # data) i arr3 ret =
     (let arr3' = arr3[i := d]; i' = i + 1
      in if i' = 3 then encode_loop data 0 arr3' (ret @ put_chars (make_arr4 arr3'))
         else encode_loop data i' arr3' ret)"

text \<open>
  After the loop, \<^verbatim>\<open>if (i)\<close>: the cells from \<open>i\<close> on are zeroed, the first
  three cells of \<^verbatim>\<open>arr4\<close> are computed, \<open>i + 1\<close> characters are appended and then
  \<open>3 - i\<close> padding characters.
\<close>

definition encode_tail :: "nat \<Rightarrow> byte list \<Rightarrow> string \<Rightarrow> string" where
  "encode_tail i arr3 ret =
     (if i \<noteq> 0 then
        (let arr3' = take i arr3 @ replicate (3 - i) 0;
             arr4 = take 3 (make_arr4 arr3')
         in ret @ put_chars (take (i + 1) arr4) @ replicate (3 - i) (CHR ''=''))
      else ret)"

definition base64_encode :: "byte list \<Rightarrow> string" where
  "base64_encode data =
     (case encode_loop data 0 [0, 0, 0] [] of (i, arr3, ret) \<Rightarrow> encode_tail i arr3 ret)"

subsection \<open>RFC 4648 base64, written from the RFC for comparison\<close>

text \<open>
  The reference encoding is stated on numbers, independently of the code: the alphabet
  by its three ranges and two extra characters, a group of three bytes as one 24-bit
  number cut into four 6-bit digits, a final group of two bytes as 16 bits padded with
  two zero bits, a final single byte as 8 bits padded with four zero bits.
\<close>

definition rfc4648_alphabet :: "nat \<Rightarrow> char" where
  "rfc4648_alphabet n =
     (if n < 26 then char_of (65 + n)
      else if n < 52 then char_of (97 + (n - 26))
      else if n < 62 then char_of (48 + (n - 52))
      else if n = 62 then CHR ''+'' else CHR ''/'')"

definition rfc4648_index :: "char \<Rightarrow> nat option" where
  "rfc4648_index c =
     (let k = (of_char c :: nat)
      in if 65 \<le> k \<and> k \<le> 90 then Some (k - 65)
         else if 97 \<le> k \<and> k \<le> 122 then Some (k - 97 + 26)
         else if 48 \<le> k \<and> k \<le> 57 then Some (k - 48 + 52)
         else if k = 43 then Some 62
         else if k = 47 then Some 63
         else None)"

fun rfc4648_encode :: "byte list \<Rightarrow> string" where
  "rfc4648_encode (a # b # c # rest) =
     (let n = unat a * 65536 + unat b * 256 + unat c
      in [rfc4648_alphabet (n div 262144), rfc4648_alphabet (n div 4096 mod 64),
          rfc4648_alphabet (n div 64 mod 64), rfc4648_alphabet (n mod 64)]
         @ rfc4648_encode rest)"
| "rfc4648_encode [a, b] =
     (let n = (unat a * 256 + unat b) * 4
      in [rfc4648_alphabet (n div 4096), rfc4648_alphabet (n div 64 mod 64),
          rfc4648_alphabet (n mod 64), CHR ''=''])"
| "rfc4648_encode [a] =
     (let n = unat a * 16
      in [rfc4648_alphabet (n div 64), rfc4648_alphabet (n mod 64), CHR ''='', CHR ''=''])"
| "rfc4648_encode [] = []"

fun rfc4648_decode :: "string \<Rightarrow> byte list option" where
  "rfc4648_decode [] = Some []"
| "rfc4648_decode (c0 # c1 # c2 # c3 # rest) =
     (if c2 = CHR ''='' \<and> c3 = CHR ''='' \<and> rest = [] then
        (case (rfc4648_index c0, rfc4648_index c1) of
           (Some i0, Some i1) \<Rightarrow> Some [of_nat ((i0 * 64 + i1) div 16)]
         | _ \<Rightarrow> None)
      else if c3 = CHR ''='' \<and> rest = [] then
        (case (rfc4648_index c0, rfc4648_index c1, rfc4648_index c2) of
           (Some i0, Some i1, Some i2) \<Rightarrow>
             (let n = (i0 * 4096 + i1 * 64 + i2) div 4
              in Some [of_nat (n div 256), of_nat (n mod 256)])
         | _ \<Rightarrow> None)
      else
        (case (rfc4648_index c0, rfc4648_index c1, rfc4648_index c2, rfc4648_index c3) of
           (Some i0, Some i1, Some i2, Some i3) \<Rightarrow>
             (let n = i0 * 262144 + i1 * 4096 + i2 * 64 + i3
              in case rfc4648_decode rest of
                   Some bs \<Rightarrow> Some ([of_nat (n div 65536), of_nat (n div 256 mod 256),
                                      of_nat (n mod 256)] @ bs)
                 | None \<Rightarrow> None)
         | _ \<Rightarrow> None))"
| "rfc4648_decode _ = None"

subsection \<open>\<^verbatim>\<open>natural_sort_compare\<close> (lines 115-133)\<close>

text \<open>
  \<^verbatim>\<open>std::isdigit\<close> in the C locale, and the value of a \<^verbatim>\<open>char\<close> as the operator
  \<^verbatim>\<open><\<close> on two \<^verbatim>\<open>char\<close>s compares it (\<^verbatim>\<open>char\<close> is signed on the x86-64 Linux
  target).
\<close>

definition isdigit :: "char \<Rightarrow> bool" where
  "isdigit c = (48 \<le> (of_char c :: nat) \<and> (of_char c :: nat) \<le> 57)"

definition char_value :: "char \<Rightarrow> int" where
  "char_value c = (let k = (of_char c :: int) in if k < 128 then k else k - 256)"

text \<open>
  \<^verbatim>\<open>std::stoll\<close> on a run of decimal digits: the value, or \<^verbatim>\<open>std::out_of_range\<close>
  when it exceeds \<^verbatim>\<open>LLONG_MAX\<close>.
\<close>

definition stoll :: "string \<Rightarrow> error + int" where
  "stoll s =
     (let v = foldl (\<lambda>n c. 10 * n + (of_char c - 48)) (0::int) s
      in if v > 2 ^ 63 - 1 then Inl OutOfRange else Inr v)"

text \<open>The inner loops \<^verbatim>\<open>while (i < a.size() && std::isdigit(a[i])) i++\<close>.\<close>

function skip_digits :: "string \<Rightarrow> nat \<Rightarrow> nat" where
  "skip_digits a i = (if i < length a \<and> isdigit (a ! i) then skip_digits a (i + 1) else i)"
  by pat_completeness auto
termination
  by (relation "measure (\<lambda>(a, i). length a - i)") auto

declare skip_digits.simps [simp del]

text \<open>
  The outer loop, with the two indices as arguments. \<^verbatim>\<open>a.substr(start, n)\<close> is
  \<open>take n (drop start a)\<close>.
\<close>

function natural_sort_loop :: "string \<Rightarrow> string \<Rightarrow> nat \<Rightarrow> nat \<Rightarrow> error + bool" where
  "natural_sort_loop a b i j =
     (if i < length a \<and> j < length b then
        if isdigit (a ! i) \<and> isdigit (b ! j) then
          (case stoll (take (skip_digits a i - i) (drop i a)) of
             Inl e \<Rightarrow> Inl e
           | Inr num_a \<Rightarrow>
               (case stoll (take (skip_digits b j - j) (drop j b)) of
                  Inl e \<Rightarrow> Inl e
                | Inr num_b \<Rightarrow>
                    if num_a \<noteq> num_b then Inr (num_a < num_b)
                    else natural_sort_loop a b (skip_digits a i) (skip_digits b j)))
        else if a ! i \<noteq> b ! j then Inr (char_value (a ! i) < char_value (b ! j))
        else natural_sort_loop a b (i + 1) (j + 1)
      else Inr (length a < length b))"
  by pat_completeness auto
termination
proof (relation "measure (\<lambda>(a, b, i, j). length a - i)")
  have step: "skip_digits a i = skip_digits a (i + 1)" if "i < length a \<and> isdigit (a ! i)" for a i
    by (subst skip_digits.simps) (simp only: that if_True simp_thms)
  have stop: "skip_digits a i = i" if "\<not> (i < length a \<and> isdigit (a ! i))" for a i
    by (subst skip_digits.simps) (simp only: that if_False simp_thms)
  have ge: "i \<le> skip_digits a i" for a i
  proof (induction a i rule: skip_digits.induct)
    case (1 a i)
    show ?case
    proof (cases "i < length a \<and> isdigit (a ! i)")
      case True
      with 1 have "i + 1 \<le> skip_digits a (i + 1)" by blast
      then show ?thesis unfolding step [OF True] by simp
    next
      case False
      show ?thesis unfolding stop [OF False] by simp
    qed
  qed
  have gt: "i < skip_digits a i" if "i < length a \<and> isdigit (a ! i)" for a i
    unfolding step [OF that] using ge [of "i + 1" a] by simp
  show "wf (measure (\<lambda>(a, b, i, j). length a - i))" by simp
  show "((a, b, skip_digits a i, skip_digits b j), a, b, i, j)
          \<in> measure (\<lambda>(a, b, i, j). length a - i)"
    if "i < length a \<and> j < length b" "isdigit (a ! i) \<and> isdigit (b ! j)"
    for a b i j
  proof -
    have "i < skip_digits a i" using that by (intro gt) simp
    with that show ?thesis by (simp add: diff_less_mono2)
  qed
  show "((a, b, i + 1, j + 1), a, b, i, j) \<in> measure (\<lambda>(a, b, i, j). length a - i)"
    if "i < length a \<and> j < length b" for a b i j
    using that by (simp add: diff_less_mono2)
qed

declare natural_sort_loop.simps [simp del]

definition natural_sort_compare :: "string \<Rightarrow> string \<Rightarrow> error + bool" where
  "natural_sort_compare a b = natural_sort_loop a b 0 0"

subsection \<open>\<^verbatim>\<open>std::sort\<close> with a comparator that may throw\<close>

text \<open>
  The C++ standard leaves the algorithm of \<^verbatim>\<open>std::sort\<close> open: for a comparator that is
  a strict weak order the result is a sorted permutation, fixed up to the order of
  equivalent elements. The model sorts by insertion; an exception of the comparator ends
  the sort.
\<close>

fun insert_by :: "('a \<Rightarrow> 'a \<Rightarrow> error + bool) \<Rightarrow> 'a \<Rightarrow> 'a list \<Rightarrow> error + 'a list" where
  "insert_by cmp x [] = Inr [x]"
| "insert_by cmp x (y # ys) =
     (case cmp x y of
        Inl e \<Rightarrow> Inl e
      | Inr True \<Rightarrow> Inr (x # y # ys)
      | Inr False \<Rightarrow>
          (case insert_by cmp x ys of Inl e \<Rightarrow> Inl e | Inr zs \<Rightarrow> Inr (y # zs)))"

fun std_sort :: "('a \<Rightarrow> 'a \<Rightarrow> error + bool) \<Rightarrow> 'a list \<Rightarrow> error + 'a list" where
  "std_sort cmp [] = Inr []"
| "std_sort cmp (x # xs) =
     (case std_sort cmp xs of Inl e \<Rightarrow> Inl e | Inr ys \<Rightarrow> insert_by cmp x ys)"

subsection \<open>\<^verbatim>\<open>ArchiveReader\<close> (lines 247-352)\<close>

text \<open>
  libarchive is outside the repository. An archive file is modelled by what the calls
  show of it: the sequence of entries whose headers \<^verbatim>\<open>archive_read_next_header\<close>
  returns with \<^verbatim>\<open>ARCHIVE_OK\<close>, each with its path name, its size and the outcome of
  \<^verbatim>\<open>archive_read_data\<close> on it (\<open>None\<close> for a negative return value, otherwise the
  bytes delivered). The file system maps a path to its archive, or to \<open>None\<close> when
  \<^verbatim>\<open>archive_read_open_filename\<close> fails.
\<close>

record archive_entry =
  pathname :: string
  entry_size :: nat
  entry_data :: "byte list option"

type_synonym file_system = "string \<Rightarrow> archive_entry list option"

record page_entry =
  name :: string
  index_in_archive :: nat

text \<open>
  The calls that free and open a libarchive handle are logged, so that a rewind can be
  observed.
\<close>

datatype archive_call = ReadFree | ReadOpen string

text \<open>
  The handle is \<open>None\<close> for \<^verbatim>\<open>nullptr\<close>, and otherwise holds the entries that the
  next calls of \<^verbatim>\<open>archive_read_next_header\<close> will return. A handle whose open failed
  returns no entry.
\<close>

record archive_reader =
  archive_handle :: "archive_entry list option"
  archive_path :: string
  entries :: "page_entry list"
  current_entry :: int
  calls :: "archive_call list"

definition new_reader :: archive_reader where
  "new_reader = \<lparr>archive_handle = None, archive_path = [], entries = [],
     current_entry = -1, calls = []\<rparr>"

definition open_handle :: "file_system \<Rightarrow> string \<Rightarrow> archive_entry list" where
  "open_handle fs path = (case fs path of None \<Rightarrow> [] | Some file \<Rightarrow> file)"

definition ar_close :: "archive_reader \<Rightarrow> archive_reader" where
  "ar_close s =
     (let s1 = (if archive_handle s \<noteq> None
                then s\<lparr>archive_handle := None, calls := calls s @ [ReadFree]\<rparr> else s)
      in s1\<lparr>entries := [], current_entry := -1\<rparr>)"

text \<open>
  \<^verbatim>\<open>fs::path(name).extension()\<close>: the part of the file name from its last period on,
  empty for the names \<^verbatim>\<open>.\<close> and \<^verbatim>\<open>..\<close> and when the only period is the first
  character. \<^verbatim>\<open>::tolower\<close> acts on the ASCII capitals.
\<close>

definition path_filename :: "string \<Rightarrow> string" where
  "path_filename p = rev (takeWhile (\<lambda>c. c \<noteq> CHR ''/'') (rev p))"

definition path_extension :: "string \<Rightarrow> string" where
  "path_extension p =
     (let f = path_filename p;
          after = rev (takeWhile (\<lambda>c. c \<noteq> CHR ''.'') (rev f))
      in if f = ''.'' \<or> f = ''..'' \<or> CHR ''.'' \<notin> set f \<or> length after + 1 = length f
         then [] else CHR ''.'' # after)"

definition tolower :: "char \<Rightarrow> char" where
  "tolower c =
     (if 65 \<le> (of_char c :: nat) \<and> (of_char c :: nat) \<le> 90
      then char_of ((of_char c :: nat) + 32) else c)"

definition is_image_name :: "string \<Rightarrow> bool" where
  "is_image_name pname =
     (let ext = map tolower (path_extension pname)
      in ext = ''.jpg'' \<or> ext = ''.jpeg'' \<or> ext = ''.png'' \<or>
         ext = ''.gif'' \<or> ext = ''.webp'' \<or> ext = ''.bmp'')"

text \<open>The indexing loop of \<^verbatim>\<open>open\<close>: \<open>idx\<close> counts every header read.\<close>

fun index_entries :: "archive_entry list \<Rightarrow> nat \<Rightarrow> page_entry list" where
  "index_entries [] idx = []"
| "index_entries (e # es) idx =
     (if is_image_name (pathname e)
      then \<lparr>name = pathname e, index_in_archive = idx\<rparr> # index_entries es (idx + 1)
      else index_entries es (idx + 1))"

definition ar_open :: "file_system \<Rightarrow> archive_reader \<Rightarrow> string \<Rightarrow> error + (archive_reader \<times> bool)" where
  "ar_open fs s path =
     (let s1 = (ar_close s)\<lparr>archive_path := path\<rparr>;
          s2 = s1\<lparr>archive_handle := Some (open_handle fs path),
                  calls := calls s1 @ [ReadOpen path]\<rparr>
      in case fs path of
           None \<Rightarrow> Inr (ar_close s2, False)
         | Some file \<Rightarrow>
             (case std_sort (\<lambda>a b. natural_sort_compare (name a) (name b))
                     (index_entries file 0) of
                Inl e \<Rightarrow> Inl e
              | Inr pages \<Rightarrow>
                  Inr (s2\<lparr>archive_handle := Some (open_handle fs path),
                          entries := pages, current_entry := -1,
                          calls := calls s2 @ [ReadFree, ReadOpen path]\<rparr>,
                       pages \<noteq> [])))"

text \<open>
  \<^verbatim>\<open>static_cast<int>(target_idx)\<close> from the 64-bit \<^verbatim>\<open>size_t\<close>, and
  \<^verbatim>\<open>static_cast<size_t>(current_entry)\<close>.
\<close>

definition to_int :: "nat \<Rightarrow> int" where
  "to_int n = sint (word_of_nat n :: 32 word)"

definition to_size_t :: "int \<Rightarrow> nat" where
  "to_size_t k = nat (k mod 2 ^ 64)"

text \<open>
  The payload of the entry found: a vector of \<open>entry_size\<close> zero bytes, overwritten
  from its start by the bytes read; the empty vector when the read fails.
\<close>

definition read_entry :: "archive_entry \<Rightarrow> byte list" where
  "read_entry e =
     (case entry_data e of
        None \<Rightarrow> []
      | Some d \<Rightarrow> take (entry_size e) (d @ replicate (entry_size e) 0))"

text \<open>
  The \<^verbatim>\<open>while\<close> loop of \<^verbatim>\<open>read_page\<close> over the headers left in the handle. It
  returns the headers left afterwards, the cursor and the bytes.
\<close>

fun walk :: "archive_entry list \<Rightarrow> int \<Rightarrow> nat \<Rightarrow> archive_entry list \<times> int \<times> byte list" where
  "walk [] cur target_idx = ([], cur, [])"
| "walk (e # rest) cur target_idx =
     (let cur' = cur + 1
      in if to_size_t cur' = target_idx then (rest, cur', read_entry e)
         else walk rest cur' target_idx)"

definition rewind :: "file_system \<Rightarrow> archive_reader \<Rightarrow> archive_reader" where
  "rewind fs s =
     s\<lparr>archive_handle := Some (open_handle fs (archive_path s)), current_entry := -1,
       calls := calls s @ [ReadFree, ReadOpen (archive_path s)]\<rparr>"

definition read_page :: "file_system \<Rightarrow> archive_reader \<Rightarrow> nat \<Rightarrow> archive_reader \<times> byte list" where
  "read_page fs s page_idx =
     (if page_idx \<ge> length (entries s) \<or> archive_handle s = None then (s, [])
      else
        (let target_idx = index_in_archive (entries s ! page_idx);
             s1 = (if current_entry s > to_int target_idx \<or> current_entry s = -1
                   then rewind fs s else s)
         in case archive_handle s1 of
              None \<Rightarrow> (s1, [])
            | Some es \<Rightarrow>
                (case walk es (current_entry s1) target_idx of
                   (rest, cur, data) \<Rightarrow>
                     (s1\<lparr>archive_handle := Some rest, current_entry := cur\<rparr>, data))))"

definition page_count :: "archive_reader \<Rightarrow> nat" where
  "page_count s = length (entries s)"

text \<open>
  What holds of a reader between calls: the cursor is \<open>-1\<close> or the position of the last
  header read, the handle holds the headers after it, and the index holds distinct
  positions of the archive.
\<close>

definition reader_inv :: "file_system \<Rightarrow> archive_reader \<Rightarrow> bool" where
  "reader_inv fs s =
     (let file = open_handle fs (archive_path s)
      in - 1 \<le> current_entry s \<and> current_entry s < int (length file) + (if file = [] then 1 else 0)
         \<and> archive_handle s = Some (drop (nat (current_entry s + 1)) file)
         \<and> (\<forall>e \<in> set (entries s). index_in_archive e < length file)
         \<and> distinct (map index_in_archive (entries s)))"

definition well_formed :: "archive_entry list \<Rightarrow> bool" where
  "well_formed file = (\<forall>e \<in> set file. \<exists>d. entry_data e = Some d \<and> length d = entry_size e)"

subsection \<open>\<^verbatim>\<open>ComicReader\<close>: state (lines 138-222, 357-390)\<close>

datatype render_mode = KITTY | TIMG | ASCII

text \<open>
  \<^verbatim>\<open>Config\<close> with the key map of its constructor. \<^verbatim>\<open>config.keymap[k][0]\<close> is the
  first character of the binding; for a missing or empty binding it is the terminating
  NUL of the empty string (the \<^verbatim>\<open>operator[]\<close> of \<^verbatim>\<open>std::map\<close> also stores the empty
  binding, which no later lookup can tell from a missing one).
\<close>

record config =
  keymap :: "string \<rightharpoonup> string"
  double_page :: bool
  show_help :: bool
  render_mode :: render_mode
  library_paths :: "string list"

definition default_keymap :: "string \<rightharpoonup> string" where
  "default_keymap =
     [''quit'' \<mapsto> ''q'', ''refresh'' \<mapsto> ''r'', ''toggle_help'' \<mapsto> ''?'',
      ''first_page'' \<mapsto> ''g'', ''last_page'' \<mapsto> ''G'',
      ''next'' \<mapsto> ''l'', ''prev'' \<mapsto> ''h'',
      ''next_alt'' \<mapsto> [CHR 0x1b, CHR ''['', CHR ''C''],
      ''prev_alt'' \<mapsto> [CHR 0x1b, CHR ''['', CHR ''D''],
      ''up'' \<mapsto> ''k'', ''down'' \<mapsto> ''j'',
      ''zoom_in'' \<mapsto> ''='', ''zoom_out'' \<mapsto> ''-'', ''zoom_out_alt'' \<mapsto> ''_'',
      ''zoom_reset'' \<mapsto> ''0'',
      ''pan_up'' \<mapsto> ''K'', ''pan_down'' \<mapsto> ''J'', ''pan_left'' \<mapsto> ''H'',
      ''pan_right'' \<mapsto> ''L'',
      ''toggle_spread'' \<mapsto> ''s'', ''double_page'' \<mapsto> ''d'']"

definition default_config :: config where
  "default_config = \<lparr>keymap = default_keymap, double_page = False, show_help = False,
     render_mode = KITTY, library_paths = []\<rparr>"

definition key_of :: "config \<Rightarrow> string \<Rightarrow> char" where
  "key_of cfg k =
     (case keymap cfg k of None \<Rightarrow> CHR 0x00 | Some [] \<Rightarrow> CHR 0x00 | Some (c # _) \<Rightarrow> c)"

text \<open>\<^verbatim>\<open>FileEntry\<close>; its field \<^verbatim>\<open>name\<close> is \<open>file_name\<close> here.\<close>

record file_entry =
  file_name :: string
  full_path :: string
  is_directory :: bool

text \<open>
  The fields of \<^verbatim>\<open>ComicReader\<close> that the embedded functions read or write. The
  vector \<^verbatim>\<open>entries\<close> is \<open>file_entries\<close>, \<^verbatim>\<open>progress.data\<close> is \<open>progress\<close>. The
  \<^verbatim>\<open>float\<close> \<^verbatim>\<open>zoom_level\<close> is taken as a real number: the theorems below use the
  constant 1.0 and the comparison with it, not rounded sums.
\<close>

record comic_reader =
  file_entries :: "file_entry list"
  current_dir :: string
  selected_idx :: int
  archive :: archive_reader
  page_cache :: "int \<rightharpoonup> byte list"
  current_page :: int
  viewing_comic :: bool
  current_comic_filename :: string
  zoom_level :: real
  pan_x :: int
  pan_y :: int
  config :: config
  progress :: "string \<rightharpoonup> int"

definition new_comic_reader :: comic_reader where
  "new_comic_reader = \<lparr>file_entries = [], current_dir = [], selected_idx = 0,
     archive = new_reader, page_cache = Map.empty, current_page = 0,
     viewing_comic = False, current_comic_filename = [], zoom_level = 1,
     pan_x = 0, pan_y = 0, config = default_config, progress = Map.empty\<rparr>"

subsection \<open>\<^verbatim>\<open>ComicReader::load_page\<close> (lines 466-480)\<close>

text \<open>
  A hit returns the cached vector. On a miss the page is read through the archive
  reader (the \<^verbatim>\<open>int\<close> ordinal converted to \<^verbatim>\<open>size_t\<close>); non-empty data is stored
  after every key at distance above 2 has been erased.
\<close>

definition load_page :: "file_system \<Rightarrow> comic_reader \<Rightarrow> int \<Rightarrow> comic_reader \<times> byte list" where
  "load_page fs st page_idx =
     (case page_cache st page_idx of
        Some cached \<Rightarrow> (st, cached)
      | None \<Rightarrow>
          (case read_page fs (archive st) (to_size_t page_idx) of
             (a, data) \<Rightarrow>
               (let st1 = st\<lparr>archive := a\<rparr>
                in if data \<noteq> [] then
                     (st1\<lparr>page_cache :=
                        (\<lambda>idx. if \<bar>idx - page_idx\<bar> > 2 then None else page_cache st idx)
                        (page_idx \<mapsto> data)\<rparr>, data)
                   else (st1, data))))"

text \<open>A sequence of requests: the state and the bytes after each call, in order.\<close>

fun load_pages :: "file_system \<Rightarrow> comic_reader \<Rightarrow> int list \<Rightarrow> (comic_reader \<times> byte list) list" where
  "load_pages fs st [] = []"
| "load_pages fs st (p # ps) =
     (case load_page fs st p of (st', data) \<Rightarrow> (st', data) # load_pages fs st' ps)"

subsection \<open>The type \<^verbatim>\<open>int\<close>\<close>

text \<open>
  \<^verbatim>\<open>int\<close> has 32 bits. An \<^verbatim>\<open>int\<close> is an integer of \<open>[-2\<^sup>3\<^sup>1, 2\<^sup>3\<^sup>1)\<close> here, and
  \<open>int32\<close> brings the exact result of an operation back into this range the way the
  two's complement hardware does; signed overflow is undefined behaviour in C++ and this
  is what the compiled program computes. The arithmetic of the pan clamp, of the buffer
  sizes and of the pixel indexes is written with the wrapping operations.
\<close>

definition int32 :: "int \<Rightarrow> int" where
  "int32 v = (v + 2 ^ 31) mod 2 ^ 32 - 2 ^ 31"

definition add32 :: "int \<Rightarrow> int \<Rightarrow> int" where
  "add32 a b = int32 (a + b)"

definition sub32 :: "int \<Rightarrow> int \<Rightarrow> int" where
  "sub32 a b = int32 (a - b)"

definition mul32 :: "int \<Rightarrow> int \<Rightarrow> int" where
  "mul32 a b = int32 (a * b)"

definition neg32 :: "int \<Rightarrow> int" where
  "neg32 a = int32 (- a)"

definition abs32 :: "int \<Rightarrow> int" where
  "abs32 a = int32 \<bar>a\<bar>"

subsection \<open>\<^verbatim>\<open>get_term_size\<close> (lines 227-242)\<close>

text \<open>
  The fields of \<^verbatim>\<open>struct winsize\<close> are \<^verbatim>\<open>unsigned short\<close>; \<open>winsize\<close> is what
  the \<^verbatim>\<open>ioctl\<close> call stored. A terminal that reports no pixel size gets 10 by 20
  pixels per cell.
\<close>

record winsize =
  ws_row :: "16 word"
  ws_col :: "16 word"
  ws_xpixel :: "16 word"
  ws_ypixel :: "16 word"

record term_size =
  rows :: int
  cols :: int
  pixel_width :: int
  pixel_height :: int

definition get_term_size :: "winsize \<Rightarrow> term_size" where
  "get_term_size w =
     \<lparr>rows = uint (ws_row w), cols = uint (ws_col w),
      pixel_width = (if ws_xpixel w > 0 then uint (ws_xpixel w) else mul32 (uint (ws_col w)) 10),
      pixel_height = (if ws_ypixel w > 0 then uint (ws_ypixel w) else mul32 (uint (ws_row w)) 20)\<rparr>"

subsection \<open>\<^verbatim>\<open>ComicReader::render_kitty\<close>: pan clamp and crop (lines 567-594)\<close>

text \<open>
  The scaled size \<^verbatim>\<open>new_w\<close>, \<^verbatim>\<open>new_h\<close> comes out of \<^verbatim>\<open>float\<close> arithmetic on the
  image size, the target size and the zoom factor, converted to \<^verbatim>\<open>int\<close>. The
  embedding starts after this conversion and takes the two integers as they are, so it
  covers every image, zoom factor and terminal.
\<close>

definition clamp :: "int \<Rightarrow> int \<Rightarrow> int \<Rightarrow> int" where
  "clamp v lo hi = (if v < lo then lo else if hi < v then hi else v)"

record crop_window =
  clamped_pan_x :: int
  clamped_pan_y :: int
  crop_x :: int
  crop_y :: int
  crop_w :: int
  crop_h :: int

definition crop_region :: "int \<Rightarrow> int \<Rightarrow> int \<Rightarrow> int \<Rightarrow> int \<Rightarrow> int \<Rightarrow> crop_window" where
  "crop_region new_w new_h target_w target_h px py =
     (let max_pan_x = max 0 (sub32 new_w target_w);
          max_pan_y = max 0 (sub32 new_h target_h);
          px' = clamp px (neg32 max_pan_x) 0;
          py' = clamp py (neg32 max_pan_y) 0;
          cx = abs32 px';
          cy = abs32 py'
      in \<lparr>clamped_pan_x = px', clamped_pan_y = py', crop_x = cx, crop_y = cy,
          crop_w = min (sub32 new_w cx) target_w, crop_h = min (sub32 new_h cy) target_h\<rparr>)"

text \<open>
  \<^verbatim>\<open>std::vector<unsigned char> v(w * h * 3)\<close>: the \<^verbatim>\<open>int\<close> product is converted to
  \<^verbatim>\<open>size_t\<close>, so a negative product asks for more than \<^verbatim>\<open>max_size()\<close> elements
  and the constructor throws; otherwise the vector holds that many zero bytes.
\<close>

definition buffer_size :: "int \<Rightarrow> int \<Rightarrow> int" where
  "buffer_size w h = mul32 (mul32 w h) 3"

definition vector_of_size :: "int \<Rightarrow> error + byte list" where
  "vector_of_size n = (if n < 0 then Inl LengthError else Inr (replicate (nat n) 0))"

text \<open>
  The copy loop runs over \<open>y\<close> below \<^verbatim>\<open>crop_h\<close> and, inside, \<open>x\<close> below
  \<^verbatim>\<open>crop_w\<close>; \<open>loop_cells\<close> lists the pairs \<open>(y, x)\<close> in the order of the loop.
  One turn copies three bytes from \<^verbatim>\<open>resized\<close> at \<^verbatim>\<open>src_idx\<close> to \<^verbatim>\<open>cropped\<close> at
  \<^verbatim>\<open>dst_idx\<close>. \<^verbatim>\<open>operator[]\<close> does not check its index, which it takes as a
  \<^verbatim>\<open>size_t\<close>: an index that is negative or not below the size of the vector is the
  error \<open>OutOfBounds\<close>.
\<close>

definition src_idx :: "int \<Rightarrow> crop_window \<Rightarrow> int \<Rightarrow> int \<Rightarrow> int" where
  "src_idx new_w c x y =
     mul32 (add32 (mul32 (add32 (crop_y c) y) new_w) (add32 (crop_x c) x)) 3"

definition dst_idx :: "crop_window \<Rightarrow> int \<Rightarrow> int \<Rightarrow> int" where
  "dst_idx c x y = mul32 (add32 (mul32 y (crop_w c)) x) 3"

definition loop_cells :: "crop_window \<Rightarrow> (int \<times> int) list" where
  "loop_cells c = concat (map (\<lambda>y. map (\<lambda>x. (y, x)) [0..crop_w c - 1]) [0..crop_h c - 1])"

definition in_vector :: "int \<Rightarrow> 'a list \<Rightarrow> bool" where
  "in_vector i v = (0 \<le> i \<and> i < int (length v))"

definition copy_pixel :: "byte list \<Rightarrow> int \<Rightarrow> crop_window \<Rightarrow> int \<times> int \<Rightarrow> byte list \<Rightarrow> error + byte list" where
  "copy_pixel resized new_w c yx cropped =
     (let s = src_idx new_w c (snd yx) (fst yx);
          d = dst_idx c (snd yx) (fst yx)
      in if in_vector (add32 s 0) resized \<and> in_vector (add32 s 1) resized
            \<and> in_vector (add32 s 2) resized \<and> in_vector (add32 d 0) cropped
            \<and> in_vector (add32 d 1) cropped \<and> in_vector (add32 d 2) cropped
         then Inr (cropped[nat (add32 d 0) := resized ! nat (add32 s 0),
                           nat (add32 d 1) := resized ! nat (add32 s 1),
                           nat (add32 d 2) := resized ! nat (add32 s 2)])
         else Inl OutOfBounds)"

fun copy_loop :: "byte list \<Rightarrow> int \<Rightarrow> crop_window \<Rightarrow> (int \<times> int) list \<Rightarrow> byte list \<Rightarrow> error + byte list" where
  "copy_loop resized new_w c [] cropped = Inr cropped"
| "copy_loop resized new_w c (yx # rest) cropped =
     (case copy_pixel resized new_w c yx cropped of
        Inl e \<Rightarrow> Inl e
      | Inr cropped' \<Rightarrow> copy_loop resized new_w c rest cropped')"

text \<open>The vector \<^verbatim>\<open>cropped\<close>: its constructor, then the copy loop.\<close>

definition crop_pixels :: "byte list \<Rightarrow> int \<Rightarrow> crop_window \<Rightarrow> error + byte list" where
  "crop_pixels resized new_w c =
     (case vector_of_size (buffer_size (crop_w c) (crop_h c)) of
        Inl e \<Rightarrow> Inl e
      | Inr cropped \<Rightarrow> copy_loop resized new_w c (loop_cells c) cropped)"

text \<open>
  For the statements below: the positions of \<^verbatim>\<open>resized\<close> that the copy loop reads, in
  the order of the loop, and the sizes for which no operation of the clamp, the crop and
  the buffer size leaves the range of \<^verbatim>\<open>int\<close>.
\<close>

definition copy_reads :: "int \<Rightarrow> crop_window \<Rightarrow> int list" where
  "copy_reads new_w c =
     concat (map (\<lambda>yx. [add32 (src_idx new_w c (snd yx) (fst yx)) 0,
                        add32 (src_idx new_w c (snd yx) (fst yx)) 1,
                        add32 (src_idx new_w c (snd yx) (fst yx)) 2])
                 (loop_cells c))"

definition int_sizes :: "int \<Rightarrow> int \<Rightarrow> int \<Rightarrow> int \<Rightarrow> bool" where
  "int_sizes new_w new_h target_w target_h =
     (\<bar>new_w\<bar> < 2 ^ 30 \<and> \<bar>new_h\<bar> < 2 ^ 30 \<and> \<bar>target_w\<bar> < 2 ^ 30 \<and> \<bar>target_h\<bar> < 2 ^ 30
      \<and> \<bar>new_w * new_h * 3\<bar> < 2 ^ 31)"

subsection \<open>\<^verbatim>\<open>ComicReader::render_kitty\<close>: placement and chunks (lines 596-639)\<close>

text \<open>
  Integer division of C++ truncates towards zero; it traps on a zero divisor, and on
  \<open>-2\<^sup>3\<^sup>1\<close> divided by \<open>-1\<close>, whose quotient is no \<^verbatim>\<open>int\<close>.
\<close>

definition c_div :: "int \<Rightarrow> int \<Rightarrow> error + int" where
  "c_div a b =
     (if b = 0 \<or> (a = - (2 ^ 31) \<and> b = - 1) then Inl DivisionByZero
      else if (a < 0) = (b < 0) then Inr (\<bar>a\<bar> div \<bar>b\<bar>)
      else Inr (- (\<bar>a\<bar> div \<bar>b\<bar>)))"

record placement =
  cols_needed :: int
  rows_needed :: int
  col_center :: int
  row_center :: int

text \<open>
  The cell size, the cells the crop occupies and the cursor cell, in the order of the
  source.
\<close>

definition place :: "term_size \<Rightarrow> int \<Rightarrow> int \<Rightarrow> int \<Rightarrow> int \<Rightarrow> int \<Rightarrow> error + placement" where
  "place tsz target_w target_h col_offset cw ch =
     (case c_div (pixel_width tsz) (cols tsz) of Inl e \<Rightarrow> Inl e | Inr char_w \<Rightarrow>
      case c_div (pixel_height tsz) (rows tsz) of Inl e \<Rightarrow> Inl e | Inr char_h \<Rightarrow>
      case c_div (sub32 (add32 cw char_w) 1) char_w of Inl e \<Rightarrow> Inl e | Inr cn \<Rightarrow>
      case c_div (sub32 (add32 ch char_h) 1) char_h of Inl e \<Rightarrow> Inl e | Inr rn \<Rightarrow>
      case c_div target_w char_w of Inl e \<Rightarrow> Inl e | Inr tc \<Rightarrow>
      case c_div (sub32 tc cn) 2 of Inl e \<Rightarrow> Inl e | Inr half_c \<Rightarrow>
      case c_div target_h char_h of Inl e \<Rightarrow> Inl e | Inr tr \<Rightarrow>
      case c_div (sub32 tr rn) 2 of Inl e \<Rightarrow> Inl e | Inr half_r \<Rightarrow>
        Inr \<lparr>cols_needed = cn, rows_needed = rn,
             col_center = max 0 (add32 col_offset half_c),
             row_center = max 1 (add32 half_r 1)\<rparr>)"

text \<open>
  What \<^verbatim>\<open>render_kitty\<close> writes: the cursor position, then one frame per chunk. The
  first frame carries \<^verbatim>\<open>s\<close>, \<^verbatim>\<open>v\<close>, \<^verbatim>\<open>c\<close>, \<^verbatim>\<open>r\<close> and the flag \<^verbatim>\<open>m\<close>, a later
  frame the flag only; both carry their part of the base64 text.
\<close>

datatype kitty_output =
    CursorTo int int
  | FirstFrame int int int int nat string
  | NextFrame nat string

function send_chunks :: "string \<Rightarrow> nat \<Rightarrow> int \<Rightarrow> int \<Rightarrow> placement \<Rightarrow> kitty_output list" where
  "send_chunks b64 offset cw ch pl =
     (if offset < length b64 then
        (let remain = length b64 - offset;
             this_chunk = min 4096 remain;
             last = (offset + this_chunk \<ge> length b64);
             m = (if last then 0 else 1);
             payload = take this_chunk (drop offset b64)
         in (if offset = 0 then FirstFrame cw ch (cols_needed pl) (rows_needed pl) m payload
             else NextFrame m payload)
            # send_chunks b64 (offset + this_chunk) cw ch pl)
      else [])"
  by pat_completeness auto
termination
  by (relation "measure (\<lambda>(b64, offset, cw, ch, pl). length b64 - offset)") auto

declare send_chunks.simps [simp del]

definition transmit :: "term_size \<Rightarrow> int \<Rightarrow> int \<Rightarrow> int \<Rightarrow> int \<Rightarrow> int \<Rightarrow> string \<Rightarrow> error + kitty_output list" where
  "transmit tsz target_w target_h col_offset cw ch b64 =
     (case place tsz target_w target_h col_offset cw ch of
        Inl e \<Rightarrow> Inl e
      | Inr pl \<Rightarrow> Inr (CursorTo (row_center pl) (add32 (col_center pl) 1)
                        # send_chunks b64 0 cw ch pl))"

text \<open>
  \<^verbatim>\<open>render_kitty\<close> from the scaled size on (lines 567-639): the target size, the
  clamped pan and the crop window, the vector \<^verbatim>\<open>cropped\<close>, its base64 text, and what
  is written. \<open>resized\<close> is the vector of that name after the resize, which is a call
  of the library \<^verbatim>\<open>stb_image_resize2\<close>.
\<close>

definition render_kitty_scaled ::
    "term_size \<Rightarrow> int \<Rightarrow> int \<Rightarrow> int \<Rightarrow> int \<Rightarrow> int \<Rightarrow> int \<Rightarrow> byte list
     \<Rightarrow> error + (crop_window \<times> kitty_output list)" where
  "render_kitty_scaled tsz col_offset width_px new_w new_h px py resized =
     (let target_w = (if width_px > 0 then width_px else pixel_width tsz);
          target_h = sub32 (pixel_height tsz) 100;
          c = crop_region new_w new_h target_w target_h px py
      in case crop_pixels resized new_w c of
           Inl e \<Rightarrow> Inl e
         | Inr cropped \<Rightarrow>
             (case transmit tsz target_w target_h col_offset (crop_w c) (crop_h c)
                     (base64_encode cropped) of
                Inl e \<Rightarrow> Inl e
              | Inr out \<Rightarrow> Inr (c, out)))"

text \<open>The fields of a frame.\<close>

fun frame_flag :: "kitty_output \<Rightarrow> nat" where
  "frame_flag (FirstFrame s v c r m p) = m"
| "frame_flag (NextFrame m p) = m"
| "frame_flag (CursorTo r c) = 0"

fun frame_payload :: "kitty_output \<Rightarrow> string" where
  "frame_payload (FirstFrame s v c r m p) = p"
| "frame_payload (NextFrame m p) = p"
| "frame_payload (CursorTo r c) = []"

subsection \<open>\<^verbatim>\<open>ComicReader::scan_directory\<close> (lines 415-461)\<close>

text \<open>
  The directory tree is outside the program. \<open>listing\<close> gives the items that the
  directory iterator yields for a directory before it ends or throws (the exception is
  caught and the items so far are kept), \<open>parent_of\<close> is
  \<^verbatim>\<open>fs::path::parent_path\<close>, and \<open>archives\<close> is the file system of archives.
\<close>

record dir_item =
  item_name :: string
  item_path :: string
  item_is_directory :: bool
  item_is_regular_file :: bool

record world =
  archives :: file_system
  listing :: "string \<Rightarrow> dir_item list"
  parent_of :: "string \<Rightarrow> string"

definition is_archive_name :: "string \<Rightarrow> bool" where
  "is_archive_name p =
     (let ext = map tolower (path_extension p)
      in ext = ''.cbz'' \<or> ext = ''.cbr'' \<or> ext = ''.zip'')"

definition scan_directory :: "world \<Rightarrow> comic_reader \<Rightarrow> error + comic_reader" where
  "scan_directory w st =
     (let parent =
            (if current_dir st \<noteq> ''/'' \<and> CHR ''/'' \<in> set (current_dir st)
             then [\<lparr>file_name = ''..'', full_path = parent_of w (current_dir st),
                    is_directory = True\<rparr>]
             else []);
          items = listing w (current_dir st);
          dirs = map (\<lambda>i. \<lparr>file_name = item_name i, full_path = item_path i,
                             is_directory = True\<rparr>)
                     (filter item_is_directory items);
          files = map (\<lambda>i. \<lparr>file_name = item_name i, full_path = item_path i,
                              is_directory = False\<rparr>)
                      (filter (\<lambda>i. \<not> item_is_directory i \<and> item_is_regular_file i
                                    \<and> is_archive_name (item_path i)) items)
      in case std_sort (\<lambda>a b. natural_sort_compare (file_name a) (file_name b)) dirs of
           Inl e \<Rightarrow> Inl e
         | Inr ds \<Rightarrow>
             (case std_sort (\<lambda>a b. natural_sort_compare (file_name a) (file_name b)) files of
                Inl e \<Rightarrow> Inl e
              | Inr fs \<Rightarrow>
                  Inr (st\<lparr>file_entries := parent @ ds @ fs,
                          selected_idx :=
                            (if selected_idx st \<ge> int (length (parent @ ds @ fs)) then 0
                             else selected_idx st)\<rparr>)))"

subsection \<open>\<^verbatim>\<open>ComicReader::run\<close>: the Enter key of the browser (lines 845-881)\<close>

text \<open>
  A handler returns the new state and what \<^verbatim>\<open>run\<close> draws next; the drawing itself
  is not part of the handlers. \<open>OpenFailed\<close> is the failure message followed by the
  file list.
\<close>

datatype redraw = NoRedraw | DrawFileList | DrawComicView | OpenFailed

definition browse_enter :: "world \<Rightarrow> comic_reader \<Rightarrow> error + (comic_reader \<times> redraw)" where
  "browse_enter w st =
     (if file_entries st = [] \<or> selected_idx st \<ge> int (length (file_entries st))
      then Inr (st, NoRedraw)
      else if selected_idx st < 0 then Inl OutOfBounds
      else
        (let fe = file_entries st ! nat (selected_idx st)
         in if is_directory fe then
              (case scan_directory w (st\<lparr>current_dir := full_path fe, selected_idx := 0\<rparr>) of
                 Inl e \<Rightarrow> Inl e
               | Inr st' \<Rightarrow> Inr (st', DrawFileList))
            else
              (case ar_open (archives w) (archive st) (full_path fe) of
                 Inl e \<Rightarrow> Inl e
               | Inr (a, ok) \<Rightarrow>
                   if ok then
                     (let st1 = st\<lparr>archive := a, viewing_comic := True,
                                    current_comic_filename := file_name fe,
                                    zoom_level := 1, pan_x := 0, pan_y := 0\<rparr>
                      in case progress st1 (file_name fe) of
                           Some saved \<Rightarrow>
                             Inr (st1\<lparr>current_page :=
                                        (if saved \<ge> int (page_count a) then 0 else saved)\<rparr>,
                                  DrawComicView)
                         | None \<Rightarrow> Inr (st1\<lparr>current_page := 0\<rparr>, DrawComicView))
                   else Inr (st\<lparr>archive := a\<rparr>, OpenFailed))))"

subsection \<open>\<^verbatim>\<open>ComicReader::run\<close>: the keys of the comic view (lines 886-1009)\<close>

text \<open>
  \<open>c\<close> is the character read at the top of the loop, \<open>inp\<close> the characters that
  further calls of \<^verbatim>\<open>read\<close> return; a \<^verbatim>\<open>read\<close> on the empty input fails. The
  handler returns the input left.
\<close>

text \<open>\<^verbatim>\<open>int step = config.double_page ? 2 : 1\<close>.\<close>

definition page_step :: "comic_reader \<Rightarrow> int" where
  "page_step st = (if double_page (config st) then 2 else 1)"

definition zoomed :: "comic_reader \<Rightarrow> bool" where
  "zoomed st = (\<not> \<bar>zoom_level st - 1\<bar> < 0.001)"

definition do_pan :: "char \<Rightarrow> comic_reader \<Rightarrow> comic_reader \<times> bool" where
  "do_pan dir st =
     (if \<not> zoomed st then (st, False)
      else if dir = CHR ''K'' then (st\<lparr>pan_y := pan_y st + 50\<rparr>, True)
      else if dir = CHR ''J'' then (st\<lparr>pan_y := pan_y st - 50\<rparr>, True)
      else if dir = CHR ''H'' then (st\<lparr>pan_x := pan_x st + 50\<rparr>, True)
      else if dir = CHR ''L'' then (st\<lparr>pan_x := pan_x st - 50\<rparr>, True)
      else (st, True))"

definition leave_view :: "comic_reader \<Rightarrow> comic_reader" where
  "leave_view st = st\<lparr>viewing_comic := False, archive := ar_close (archive st),
     page_cache := Map.empty\<rparr>"

definition redraw_if :: "comic_reader \<times> bool \<Rightarrow> char list \<Rightarrow> comic_reader \<times> redraw \<times> char list" where
  "redraw_if r inp = (fst r, if snd r then DrawComicView else NoRedraw, inp)"

definition shift_arrow :: "comic_reader \<Rightarrow> char list \<Rightarrow> comic_reader \<times> redraw \<times> char list" where
  "shift_arrow st inp =
     (case inp of
        semi # two # dir # rest \<Rightarrow>
          if semi \<noteq> CHR '';'' \<or> two \<noteq> CHR ''2'' then (st, NoRedraw, rest)
          else if zoomed st then
            (if dir = CHR ''A'' then (fst (do_pan (CHR ''K'') st), NoRedraw, rest)
             else if dir = CHR ''B'' then (fst (do_pan (CHR ''J'') st), NoRedraw, rest)
             else if dir = CHR ''C'' then (fst (do_pan (CHR ''L'') st), NoRedraw, rest)
             else if dir = CHR ''D'' then (fst (do_pan (CHR ''H'') st), NoRedraw, rest)
             else (st, NoRedraw, rest))
          else (st, NoRedraw, rest)
      | _ \<Rightarrow> (st, NoRedraw, []))"

definition view_key :: "comic_reader \<Rightarrow> char \<Rightarrow> char list \<Rightarrow> comic_reader \<times> redraw \<times> char list" where
  "view_key st c inp =
     (let cfg = config st;
          step = page_step st;
          count = int (page_count (archive st));
          cur = current_page st
      in if c = CHR 0x1b then
           (case inp of
              [] \<Rightarrow> (leave_view st, DrawFileList, [])
            | [s0] \<Rightarrow> (st, NoRedraw, [])
            | s0 # s1 # rest \<Rightarrow>
                if s0 = CHR ''['' then
                  if s1 = CHR ''1'' then shift_arrow st rest
                  else if s1 = CHR ''C'' \<and> cur + step < count
                    then (st\<lparr>current_page := cur + step\<rparr>, DrawComicView, rest)
                  else if s1 = CHR ''D'' \<and> cur > 0
                    then (st\<lparr>current_page := max 0 (cur - step)\<rparr>, DrawComicView, rest)
                  else (st, NoRedraw, rest)
                else (st, NoRedraw, rest))
         else if c = key_of cfg ''next'' \<and> cur + step < count
           then (st\<lparr>current_page := cur + step\<rparr>, DrawComicView, inp)
         else if c = key_of cfg ''prev'' \<and> cur > 0
           then (st\<lparr>current_page := max 0 (cur - step)\<rparr>, DrawComicView, inp)
         else if c = key_of cfg ''first_page''
           then (st\<lparr>current_page := 0\<rparr>, DrawComicView, inp)
         else if c = key_of cfg ''last_page''
           then (st\<lparr>current_page := count - 1\<rparr>, DrawComicView, inp)
         else if c = key_of cfg ''toggle_spread'' \<or> c = key_of cfg ''double_page''
           then (st\<lparr>config := cfg\<lparr>double_page := \<not> double_page cfg\<rparr>\<rparr>, DrawComicView, inp)
         else if c = key_of cfg ''toggle_help''
           then (st\<lparr>config := cfg\<lparr>show_help := \<not> show_help cfg\<rparr>\<rparr>, DrawComicView, inp)
         else if c = key_of cfg ''quit''
           then (leave_view st, DrawFileList, inp)
         else if c = key_of cfg ''zoom_in''
           then (st\<lparr>zoom_level := min (zoom_level st + 0.1) 3\<rparr>, DrawComicView, inp)
         else if c = key_of cfg ''zoom_out'' \<or> c = key_of cfg ''zoom_out_alt''
           then (st\<lparr>zoom_level := max (zoom_level st - 0.1) 0.5\<rparr>, DrawComicView, inp)
         else if c = key_of cfg ''zoom_reset''
           then (st\<lparr>zoom_level := 1, pan_x := 0, pan_y := 0\<rparr>, DrawComicView, inp)
         else if c = key_of cfg ''pan_up'' then redraw_if (do_pan (CHR ''K'') st) inp
         else if c = key_of cfg ''pan_down'' then redraw_if (do_pan (CHR ''J'') st) inp
         else if c = key_of cfg ''pan_left'' then redraw_if (do_pan (CHR ''H'') st) inp
         else if c = key_of cfg ''pan_right'' then redraw_if (do_pan (CHR ''L'') st) inp
         else (st, NoRedraw, inp))"

subsection \<open>\<^verbatim>\<open>ComicReader::draw_comic_view\<close>: the pages drawn (lines 720-742)\<close>

text \<open>
  \<^verbatim>\<open>draw_comic_view\<close> draws two pages when \<^verbatim>\<open>effective_double\<close> holds and a
  page follows the current one, and the current page alone otherwise; \<open>drawn_pages\<close>
  lists the ordinals it passes to \<^verbatim>\<open>load_page\<close> for drawing.
\<close>

definition effective_double :: "comic_reader \<Rightarrow> bool" where
  "effective_double st =
     (double_page (config st) \<and> \<bar>zoom_level st - 1\<bar> < 0.001
      \<and> (render_mode (config st) = KITTY \<or> render_mode (config st) = TIMG))"

definition drawn_pages :: "comic_reader \<Rightarrow> int list" where
  "drawn_pages st =
     (if effective_double st \<and> current_page st + 1 < int (page_count (archive st))
      then [current_page st, current_page st + 1]
      else [current_page st])"

subsection \<open>The page step, written from the specification for comparison\<close>

text \<open>
  The specification's step: 2 when spread mode is active and eligible, else 1, where a
  spread is honoured only at the default zoom and with a renderer that places two
  pages side by side (the condition \<^verbatim>\<open>effective_double\<close> of \<^verbatim>\<open>draw_comic_view\<close>);
  and the specification's move: the ordinal plus or minus the step, clamped to
  \<open>[0, page_count - 1]\<close>.
\<close>

definition spread_eligible :: "comic_reader \<Rightarrow> bool" where
  "spread_eligible st =
     (double_page (config st) \<and> \<bar>zoom_level st - 1\<bar> < 0.001
      \<and> (render_mode (config st) = KITTY \<or> render_mode (config st) = TIMG))"

definition spec_step :: "comic_reader \<Rightarrow> int" where
  "spec_step st = (if spread_eligible st then 2 else 1)"

definition spec_next_page :: "comic_reader \<Rightarrow> int" where
  "spec_next_page st =
     min (max 0 (current_page st + spec_step st)) (int (page_count (archive st)) - 1)"

definition spec_prev_page :: "comic_reader \<Rightarrow> int" where
  "spec_prev_page st =
     min (max 0 (current_page st - spec_step st)) (int (page_count (archive st)) - 1)"

subsection \<open>Example inputs\<close>

text \<open>
  An archive of six pages and a text file, in a stream order that differs from the page
  order, at the path \<^verbatim>\<open>a.cbz\<close> of the example file system.
\<close>

definition example_archive :: "archive_entry list" where
  "example_archive =
     [\<lparr>pathname = ''c2.png'', entry_size = 1, entry_data = Some [2]\<rparr>,
      \<lparr>pathname = ''c1.png'', entry_size = 1, entry_data = Some [1]\<rparr>,
      \<lparr>pathname = ''info.txt'', entry_size = 1, entry_data = Some [0]\<rparr>,
      \<lparr>pathname = ''c3.png'', entry_size = 1, entry_data = Some [3]\<rparr>,
      \<lparr>pathname = ''c4.png'', entry_size = 1, entry_data = Some [4]\<rparr>,
      \<lparr>pathname = ''c5.png'', entry_size = 1, entry_data = Some [5]\<rparr>,
      \<lparr>pathname = ''c6.png'', entry_size = 1, entry_data = Some [6]\<rparr>]"

text \<open>The three page names of the natural-order example, in the order of the claim.\<close>

definition pages_archive :: "archive_entry list" where
  "pages_archive =
     [\<lparr>pathname = ''page2.jpg'', entry_size = 1, entry_data = Some [2]\<rparr>,
      \<lparr>pathname = ''page10.jpg'', entry_size = 1, entry_data = Some [10]\<rparr>,
      \<lparr>pathname = ''page1.jpg'', entry_size = 1, entry_data = Some [1]\<rparr>]"

definition example_fs :: file_system where
  "example_fs p =
     (if p = ''a.cbz'' then Some example_archive
      else if p = ''pages.cbz'' then Some pages_archive else None)"

definition example_session :: archive_reader where
  "example_session =
     \<lparr>archive_handle = Some example_archive, archive_path = ''a.cbz'',
      entries =
        [\<lparr>name = ''c1.png'', index_in_archive = 1\<rparr>,
         \<lparr>name = ''c2.png'', index_in_archive = 0\<rparr>,
         \<lparr>name = ''c3.png'', index_in_archive = 3\<rparr>,
         \<lparr>name = ''c4.png'', index_in_archive = 4\<rparr>,
         \<lparr>name = ''c5.png'', index_in_archive = 5\<rparr>,
         \<lparr>name = ''c6.png'', index_in_archive = 6\<rparr>],
      current_entry = - 1,
      calls = [ReadOpen ''a.cbz'', ReadFree, ReadOpen ''a.cbz'']\<rparr>"

text \<open>A reader that views the example archive, with an empty cache.\<close>

definition example_reader :: comic_reader where
  "example_reader = new_comic_reader\<lparr>archive := example_session, viewing_comic := True,
     current_comic_filename := ''a.cbz''\<rparr>"

text \<open>
  A world that holds the example archives and no directory items, and a browser whose
  list holds the archive \<^verbatim>\<open>a.cbz\<close>, selected.
\<close>

definition example_world :: world where
  "example_world = \<lparr>archives = example_fs, listing = (\<lambda>d. []), parent_of = (\<lambda>p. p)\<rparr>"

definition browsing_reader :: comic_reader where
  "browsing_reader = new_comic_reader\<lparr>file_entries :=
     [\<lparr>file_name = ''a.cbz'', full_path = ''a.cbz'', is_directory = False\<rparr>],
     current_dir := ''.''\<rparr>"

section \<open>Theorems\<close>

subsection \<open>Base64: the code against RFC 4648\<close>

text \<open>The cells of \<^verbatim>\<open>arr4\<close> as numbers.\<close>

lemma unat_byte_lt: "unat (x::byte) < 256"
  using unsigned_less [of x] by simp

lemma unat_and_mask: "unat ((x::byte) AND mask n) = unat x mod 2 ^ n"
  unfolding take_bit_eq_mask [symmetric] unsigned_take_bit_eq by (rule take_bit_eq_mod)

lemma unat_drop: "unat (drop_bit n (x::byte)) = unat x div 2 ^ n"
  unfolding unat_drop_bit_eq by (rule drop_bit_eq_div)

lemma unat_push: "unat x * 2 ^ n < 256 \<Longrightarrow> unat (push_bit n (x::byte)) = unat x * 2 ^ n"
  unfolding unsigned_push_bit_eq by (simp add: push_bit_eq_mult take_bit_eq_mod)

lemma unat_and3: "unat ((x::byte) AND 3) = unat x mod 4"
  using unat_and_mask [of x 2] by (simp add: mask_eq_exp_minus_1)

lemma unat_and15: "unat ((x::byte) AND 15) = unat x mod 16"
  using unat_and_mask [of x 4] by (simp add: mask_eq_exp_minus_1)

lemma unat_and63: "unat ((x::byte) AND 63) = unat x mod 64"
  using unat_and_mask [of x 6] by (simp add: mask_eq_exp_minus_1)

lemma unat_hi6: "unat (drop_bit 2 (a AND 0xfc :: byte)) = unat a div 4"
proof -
  have "drop_bit 2 (a AND 0xfc) = drop_bit 2 a AND 63" by simp
  moreover have "unat (drop_bit 2 a AND 63) = (unat a div 4) mod 64"
    unfolding unat_and63 unat_drop by simp
  moreover have "unat a div 4 < 64" using unat_byte_lt [of a] by simp
  ultimately show ?thesis by simp
qed

lemma unat_hi4: "unat (drop_bit 4 (b AND 0xf0 :: byte)) = unat b div 16"
proof -
  have "drop_bit 4 (b AND 0xf0) = drop_bit 4 b AND 15" by simp
  moreover have "unat (drop_bit 4 b AND 15) = (unat b div 16) mod 16"
    unfolding unat_and15 unat_drop by simp
  moreover have "unat b div 16 < 16" using unat_byte_lt [of b] by simp
  ultimately show ?thesis by simp
qed

lemma unat_hi2: "unat (drop_bit 6 (b AND 0xc0 :: byte)) = unat b div 64"
proof -
  have "drop_bit 6 (b AND 0xc0) = drop_bit 6 b AND 3" by simp
  moreover have "unat (drop_bit 6 b AND 3) = (unat b div 64) mod 4"
    unfolding unat_and3 unat_drop by simp
  moreover have "unat b div 64 < 4" using unat_byte_lt [of b] by simp
  ultimately show ?thesis by simp
qed

lemma unat_lo2_shift: "unat (push_bit 4 (a AND 0x03 :: byte)) = (unat a mod 4) * 16"
proof -
  have "unat (a AND 3) * 2 ^ 4 < 256"
    unfolding unat_and3 using mod_less_divisor [of 4 "unat a"] by simp
  from unat_push [OF this] show ?thesis unfolding unat_and3 by simp
qed

lemma unat_lo4_shift: "unat (push_bit 2 (a AND 0x0f :: byte)) = (unat a mod 16) * 4"
proof -
  have "unat (a AND 15) * 2 ^ 2 < 256"
    unfolding unat_and15 using mod_less_divisor [of 16 "unat a"] by simp
  from unat_push [OF this] show ?thesis unfolding unat_and15 by simp
qed

lemma unat_arr4_1:
  "unat (push_bit 4 (a AND 0x03) + drop_bit 4 (b AND 0xf0) :: byte) = (unat a mod 4) * 16 + unat b div 16"
proof -
  have "(unat a mod 4) * 16 + unat b div 16 < 256"
    using mod_less_divisor [of 4 "unat a"] unat_byte_lt [of b] by simp
  then show ?thesis
    by (simp only: unat_word_ariths unat_lo2_shift unat_hi4) simp
qed

lemma unat_arr4_2:
  "unat (push_bit 2 (b AND 0x0f) + drop_bit 6 (c AND 0xc0) :: byte) = (unat b mod 16) * 4 + unat c div 64"
proof -
  have "(unat b mod 16) * 4 + unat c div 64 < 256"
    using mod_less_divisor [of 16 "unat b"] unat_byte_lt [of c] by simp
  then show ?thesis
    by (simp only: unat_word_ariths unat_lo4_shift unat_hi2) simp
qed

lemma of_char_alphabet:
  "n < 64 \<Longrightarrow> (of_char (rfc4648_alphabet n) :: nat) =
     (if n < 26 then 65 + n else if n < 52 then 71 + n else if n < 62 then n - 4
      else if n = 62 then 43 else 47)"
  by (simp add: rfc4648_alphabet_def)

lemma index_alphabet: "n < 64 \<Longrightarrow> rfc4648_index (rfc4648_alphabet n) = Some n"
proof -
  assume n: "n < 64"
  consider "n < 26" | "26 \<le> n \<and> n < 52" | "52 \<le> n \<and> n < 62" | "n = 62" | "n = 63"
    using n by linarith
  then show ?thesis
    by cases (auto simp: rfc4648_index_def of_char_alphabet Let_def)
qed

lemma alphabet_not_pad: "n < 64 \<Longrightarrow> rfc4648_alphabet n \<noteq> CHR ''=''"
proof
  assume n: "n < 64" and "rfc4648_alphabet n = CHR ''=''"
  then have "(of_char (rfc4648_alphabet n) :: nat) = 61" by simp
  with n show False by (simp only: of_char_alphabet split: if_splits)
qed

lemma alphabet_table: "map rfc4648_alphabet [0..<64] = base64_chars"
  by code_simp

lemma base64_chars_nth: "n < 64 \<Longrightarrow> base64_chars ! n = rfc4648_alphabet n"
proof -
  assume "n < 64"
  then have "map rfc4648_alphabet [0..<64] ! n = rfc4648_alphabet n"
    by (simp del: upt_Suc)
  then show ?thesis by (simp only: alphabet_table)
qed

lemma alphabet_in_chars: "n < 64 \<Longrightarrow> rfc4648_alphabet n \<in> set base64_chars"
proof -
  assume "n < 64"
  then have "rfc4648_alphabet n \<in> set (map rfc4648_alphabet [0..<64])"
    by (simp del: upt_Suc)
  then show ?thesis by (simp only: alphabet_table)
qed

lemma div_add_small: "x < k \<Longrightarrow> (a * k + x) div k = (a::nat)"
  by simp

lemma mod_add_small: "x < k \<Longrightarrow> (x + a * k) mod k = (x::nat)"
  by simp

lemma digit0: 
  assumes "b < 256" "c < 256"
  shows "(a * 65536 + b * 256 + c) div 262144 = a div (4::nat)"
proof -
  have r: "b * 256 + c < 65536" using assms by linarith
  have "(a * 65536 + b * 256 + c) div 262144 = (a * 65536 + (b * 256 + c)) div 65536 div 4"
    by (simp add: div_mult2_eq [symmetric] add.assoc)
  also have "\<dots> = a div 4" by (simp only: div_add_small [OF r])
  finally show ?thesis .
qed

lemma digit1a: 
  assumes "c < 256"
  shows "(a * 65536 + b * 256 + c) div 4096 = a * 16 + b div (16::nat)"
proof -
  have "a * 65536 + b * 256 + c = (a * 256 + b) * 256 + c" by simp
  then have "(a * 65536 + b * 256 + c) div 4096 = ((a * 256 + b) * 256 + c) div 256 div 16"
    by (simp add: div_mult2_eq [symmetric])
  also have "\<dots> = (a * 256 + b) div 16" by (simp only: div_add_small [OF assms])
  also have "\<dots> = a * 16 + b div 16" 
  proof -
    have "a * 256 + b = b + (a * 16) * 16" by simp
    then show ?thesis by (simp only: div_mult_self1) 
  qed
  finally show ?thesis .
qed

lemma split_lo: "(a * k + q) mod (m * k) = (a mod m) * k + q" if "q < k" "0 < m" for a k q m :: nat
proof -
  have "a * k + q = (a div m * m + a mod m) * k + q" by simp
  also have "\<dots> = ((a mod m) * k + q) + (a div m) * (m * k)"
    by (simp only: add_mult_distrib mult.assoc add.commute add.left_commute)
  finally have "a * k + q = ((a mod m) * k + q) + (a div m) * (m * k)" .
  moreover have "(a mod m) * k + q < m * k"
  proof -
    have "a mod m < m" using that by simp
    then have "(a mod m) * k + k \<le> m * k"
      by (metis Suc_leI mult_Suc mult_le_mono1 add.commute)
    with that show ?thesis by linarith
  qed
  ultimately show ?thesis by (simp only: mod_add_small)
qed

lemma digit1b: "b < 256 \<Longrightarrow> (a * 16 + b div 16) mod 64 = (a mod 4) * 16 + b div (16::nat)"
  using split_lo [of "b div 16" 16 4 a] by simp

lemma digit2a:
  "(a * 65536 + b * 256 + c) div 64 = a * 1024 + b * 4 + c div (64::nat)"
proof -
  have "a * 65536 + b * 256 + c = c + (a * 1024 + b * 4) * 64" by simp
  then show ?thesis by (simp only: div_mult_self1)
qed

lemma digit2b: "c < 256 \<Longrightarrow> (a * 1024 + b * 4 + c div 64) mod 64 = (b mod 16) * 4 + c div (64::nat)"
proof -
  assume c: "c < 256"
  have "a * 1024 + b * 4 + c div 64 = (b * 4 + c div 64) + (a * 16) * 64" by simp
  then have "(a * 1024 + b * 4 + c div 64) mod 64 = (b * 4 + c div 64) mod 64"
    by (simp only: mod_mult_self1)
  also have "\<dots> = (b mod 16) * 4 + c div 64" 
    using split_lo [of "c div 64" 4 16 b] c by simp
  finally show ?thesis .
qed

lemma digit3: "(a * 65536 + b * 256 + c) mod 64 = c mod (64::nat)"
proof -
  have "a * 65536 + b * 256 + c = c + (a * 1024 + b * 4) * 64" by simp
  then show ?thesis by (simp only: mod_mult_self1)
qed


lemma arr4_cells:
  "make_arr4 [a, b, c] =
     [drop_bit 2 (a AND 0xfc),
      push_bit 4 (a AND 0x03) + drop_bit 4 (b AND 0xf0),
      push_bit 2 (b AND 0x0f) + drop_bit 6 (c AND 0xc0),
      c AND 0x3f]"
  unfolding make_arr4_def
  by (simp only: nth_Cons_0 nth_Cons_Suc nth_Cons_numeral numeral_2_eq_2 One_nat_def)

lemma arr4_values:
  "map unat (make_arr4 [a, b, c]) =
     [unat a div 4, (unat a mod 4) * 16 + unat b div 16,
      (unat b mod 16) * 4 + unat c div 64, unat c mod 64]"
  unfolding arr4_cells
  by (simp only: list.map unat_hi6 unat_arr4_1 unat_arr4_2 unat_and63)

lemma put_chars_unat: "put_chars xs = map (\<lambda>n. base64_chars ! n) (map unat xs)"
  by (simp add: put_chars_def)

lemma digit_bounds:
  "a < 256 \<Longrightarrow> a div 4 < (64::nat)"
  "b < 256 \<Longrightarrow> (a mod 4) * 16 + b div 16 < (64::nat)"
  "c < 256 \<Longrightarrow> (b mod 16) * 4 + c div 64 < (64::nat)"
  "c mod 64 < (64::nat)"
proof -
  show "a < 256 \<Longrightarrow> a div 4 < (64::nat)" by simp
  show "c mod 64 < (64::nat)" by simp
  have m4: "a mod 4 < 4" and m16: "b mod 16 < 16" by simp_all
  show "b < 256 \<Longrightarrow> (a mod 4) * 16 + b div 16 < (64::nat)" using m4 by linarith
  show "c < 256 \<Longrightarrow> (b mod 16) * 4 + c div 64 < (64::nat)" using m16 by linarith
qed

lemma put_chars_arr4:
  "put_chars (make_arr4 [a, b, c]) =
     [rfc4648_alphabet (unat a div 4), rfc4648_alphabet ((unat a mod 4) * 16 + unat b div 16),
      rfc4648_alphabet ((unat b mod 16) * 4 + unat c div 64), rfc4648_alphabet (unat c mod 64)]"
  unfolding put_chars_unat arr4_values
  by (simp only: list.map base64_chars_nth digit_bounds unat_byte_lt)

text \<open>The loop and the tail of \<^verbatim>\<open>base64_encode\<close>, group by group.\<close>

lemma length3E: "length xs = 3 \<Longrightarrow> \<exists>x y z. xs = [x, y, z]"
  by (cases xs; simp; rename_tac ys; case_tac ys; simp; rename_tac zs; case_tac zs; simp)

lemma encode_loop_group:
  "length arr3 = 3 \<Longrightarrow>
   encode_loop (a # b # c # rest) 0 arr3 ret =
     encode_loop rest 0 [a, b, c] (ret @ put_chars (make_arr4 [a, b, c]))"
proof -
  assume "length arr3 = 3"
  then obtain x y z where arr3: "arr3 = [x, y, z]" using length3E by blast
  show ?thesis by (simp add: arr3 Let_def)
qed

lemma encode_tail_one:
  "length arr3 = 3 \<Longrightarrow>
   encode_tail 1 (arr3[0 := a]) ret =
     ret @ [rfc4648_alphabet (unat a div 4), rfc4648_alphabet ((unat a mod 4) * 16),
            CHR ''='', CHR ''='']"
proof -
  assume "length arr3 = 3"
  then obtain x y z where arr3: "arr3 = [x, y, z]" using length3E by blast
  have "put_chars (take 2 (take 3 (make_arr4 [a, 0, 0]))) =
        [rfc4648_alphabet (unat a div 4), rfc4648_alphabet ((unat a mod 4) * 16)]"
    using put_chars_arr4 [of a 0 0] by (simp add: put_chars_def make_arr4_def)
  moreover have "take 1 (arr3[0 := a]) @ replicate (3 - 1) 0 = [a, 0, 0]"
    by (simp add: arr3 numeral_2_eq_2)
  ultimately show ?thesis
    unfolding encode_tail_def Let_def
    by (simp add: numeral_2_eq_2 del: take_Suc_Cons)
qed

lemma encode_tail_two:
  "length arr3 = 3 \<Longrightarrow>
   encode_tail 2 (arr3[0 := a, 1 := b]) ret =
     ret @ [rfc4648_alphabet (unat a div 4), rfc4648_alphabet ((unat a mod 4) * 16 + unat b div 16),
            rfc4648_alphabet ((unat b mod 16) * 4), CHR ''='']"
proof -
  assume "length arr3 = 3"
  then obtain x y z where arr3: "arr3 = [x, y, z]" using length3E by blast
  have "put_chars (take 3 (take 3 (make_arr4 [a, b, 0]))) =
        [rfc4648_alphabet (unat a div 4), rfc4648_alphabet ((unat a mod 4) * 16 + unat b div 16),
         rfc4648_alphabet ((unat b mod 16) * 4)]"
    using put_chars_arr4 [of a b 0] by (simp add: put_chars_def make_arr4_def)
  moreover have "take 2 (arr3[0 := a, 1 := b]) @ replicate (3 - 2) 0 = [a, b, 0]"
    by (simp add: arr3 numeral_2_eq_2)
  ultimately show ?thesis
    unfolding encode_tail_def Let_def
    by (simp add: numeral_3_eq_3 del: take_Suc_Cons)
qed

lemma rfc_group3:
  "rfc4648_encode (a # b # c # rest) =
     [rfc4648_alphabet (unat a div 4), rfc4648_alphabet ((unat a mod 4) * 16 + unat b div 16),
      rfc4648_alphabet ((unat b mod 16) * 4 + unat c div 64), rfc4648_alphabet (unat c mod 64)]
     @ rfc4648_encode rest"
proof -
  note lt = unat_byte_lt [of b] unat_byte_lt [of c]
  show ?thesis
    unfolding rfc4648_encode.simps Let_def
    by (simp only: digit0 [OF lt] digit1a [OF lt(2)] digit1b [OF lt(1)] digit2a digit2b [OF lt(2)] digit3)
qed

lemma pad1_digits: "(a * 16) div 64 = a div (4::nat)" "(a * 16) mod 64 = (a mod 4) * (16::nat)"
proof -
  have "(a * 16) div (4 * 16) = a div (4::nat)" by (rule div_mult_mult2) simp
  then show "(a * 16) div 64 = a div (4::nat)" by simp
  have "(a * 16) mod (4 * 16) = (a mod 4) * (16::nat)" by (rule mod_mult_mult2)
  then show "(a * 16) mod 64 = (a mod 4) * (16::nat)" by simp
qed

lemma pad2_digits:
  assumes "b < 256"
  shows "((a * 256 + b) * 4) div 4096 = a div (4::nat)"
    and "((a * 256 + b) * 4) div 64 mod 64 = (a mod 4) * 16 + b div (16::nat)"
    and "((a * 256 + b) * 4) mod 64 = (b mod 16) * (4::nat)"
proof -
  have "((a * 256 + b) * 4) div (1024 * 4) = (a * 256 + b) div (1024::nat)"
    by (rule div_mult_mult2) simp
  also have "\<dots> = (a * 256 + b) div 256 div 4" by (simp add: div_mult2_eq [symmetric])
  also have "\<dots> = a div 4" by (simp only: div_add_small [OF assms])
  finally show "((a * 256 + b) * 4) div 4096 = a div (4::nat)" by simp
  have "((a * 256 + b) * 4) div (16 * 4)  = (a * 256 + b) div (16::nat)"
    by (rule div_mult_mult2) simp
  also have "\<dots> = a * 16 + b div 16"
  proof -
    have "a * 256 + b = b + (a * 16) * 16" by simp
    then show ?thesis by (simp only: div_mult_self1)
  qed
  finally have "((a * 256 + b) * 4) div 64 = a * 16 + b div 16" by simp
  then show "((a * 256 + b) * 4) div 64 mod 64 = (a mod 4) * 16 + b div (16::nat)"
    by (simp only: digit1b [OF assms])
  have "((a * 256 + b) * 4) mod (16 * 4) = ((a * 256 + b) mod 16) * (4::nat)"
    by (rule mod_mult_mult2)
  moreover have "(a * 256 + b) mod 16 = b mod 16"
  proof -
    have "a * 256 + b = b + (a * 16) * 16" by simp
    then show ?thesis by (simp only: mod_mult_self1)
  qed
  ultimately show "((a * 256 + b) * 4) mod 64 = (b mod 16) * (4::nat)" by simp
qed

lemma rfc_group2:
  "rfc4648_encode [a, b] =
     [rfc4648_alphabet (unat a div 4), rfc4648_alphabet ((unat a mod 4) * 16 + unat b div 16),
      rfc4648_alphabet ((unat b mod 16) * 4), CHR ''='']"
  unfolding rfc4648_encode.simps Let_def
  by (simp only: pad2_digits [OF unat_byte_lt])

lemma rfc_group1:
  "rfc4648_encode [a] =
     [rfc4648_alphabet (unat a div 4), rfc4648_alphabet ((unat a mod 4) * 16),
      CHR ''='', CHR ''='']"
  unfolding rfc4648_encode.simps Let_def
  by (simp only: pad1_digits)

lemma encode_loop_tail_rfc:
  "length arr3 = 3 \<Longrightarrow>
   (case encode_loop data 0 arr3 ret of (i, arr3', ret') \<Rightarrow> encode_tail i arr3' ret') =
     ret @ rfc4648_encode data"
proof (induction data arbitrary: arr3 ret rule: rfc4648_encode.induct)
  case (1 a b c rest)
  have "(case encode_loop rest 0 [a, b, c] (ret @ put_chars (make_arr4 [a, b, c])) of
           (i, arr3', ret') \<Rightarrow> encode_tail i arr3' ret') =
        (ret @ put_chars (make_arr4 [a, b, c])) @ rfc4648_encode rest"
    by (rule "1.IH") (simp only: list.size, simp)
  then show ?case
    unfolding encode_loop_group [OF "1.prems"] rfc_group3 put_chars_arr4 by simp
next
  case (2 a b)
  have "encode_loop [a, b] 0 arr3 ret = (2, arr3[0 := a, 1 := b], ret)"
    by (simp add: Let_def)
  then show ?case
    by (simp only: prod.case encode_tail_two [OF "2.prems"] rfc_group2)
next
  case (3 a)
  have "encode_loop [a] 0 arr3 ret = (1, arr3[0 := a], ret)"
    by (simp add: Let_def)
  then show ?case
    by (simp only: prod.case encode_tail_one [OF "3.prems"] rfc_group1)
next
  case 4
  show ?case by (simp add: encode_tail_def)
qed

lemma base64_encode_eq_rfc: "base64_encode data = rfc4648_encode data"
  unfolding base64_encode_def
  using encode_loop_tail_rfc [of "[0, 0, 0]" data "[]"] by (simp add: numeral_3_eq_3)

text \<open>Length, alphabet and decoding of the reference encoding.\<close>

lemma rfc_encode_length: "length (rfc4648_encode data) = 4 * ((length data + 2) div 3)"
proof (induction data rule: rfc4648_encode.induct)
  case (1 a b c rest)
  have "length (a # b # c # rest) + 2 = (length rest + 2) + 3" by simp
  then have "(length (a # b # c # rest) + 2) div 3 = (length rest + 2) div 3 + 1"
    by (simp only: div_add_self2)
  then show ?case unfolding rfc_group3 using "1.IH" by simp
qed (simp_all add: Let_def)

lemma rfc_encode_chars: "set (rfc4648_encode data) \<subseteq> set base64_chars \<union> {CHR ''=''}"
proof (induction data rule: rfc4648_encode.induct)
  case (1 a b c rest)
  note lt = unat_byte_lt [of a] unat_byte_lt [of b] unat_byte_lt [of c]
  show ?case
    unfolding rfc_group3 using "1.IH" 
    by (simp add: alphabet_in_chars digit_bounds lt)
next
  case (2 a b)
  note lt = unat_byte_lt [of a] unat_byte_lt [of b]
  have "(unat b mod 16) * 4 + 0 div 64 < 64" by (rule digit_bounds(3)) simp
  then show ?case
    unfolding rfc_group2 by (simp add: alphabet_in_chars digit_bounds lt)
next
  case (3 a)
  note lt = unat_byte_lt [of a]
  have "(unat a mod 4) * 16 + 0 div 16 < 64" by (rule digit_bounds(2)) simp
  then show ?case
    unfolding rfc_group1 by (simp add: alphabet_in_chars digit_bounds lt)
next
  case 4
  show ?case by simp
qed


lemma base64_expand:
  "n div 262144 * 262144 + (n div 4096 mod 64) * 4096 + (n div 64 mod 64) * 64 + n mod 64 = (n::nat)"
proof -
  have a: "n div 4096 = n div 64 div 64" and b: "n div 262144 = n div 64 div 64 div 64"
    by (simp_all add: div_mult2_eq [symmetric])
  have "n = n div 64 * 64 + n mod 64" by simp
  moreover have "n div 64 = n div 64 div 64 * 64 + n div 64 mod 64" by simp
  moreover have "n div 64 div 64 = n div 64 div 64 div 64 * 64 + n div 64 div 64 mod 64" by simp
  ultimately show ?thesis unfolding a b by linarith
qed

lemma bytes_of_group:
  assumes "b < 256" "c < 256"
  shows "(a * 65536 + b * 256 + c) div 65536 = (a::nat)"
    and "(a * 65536 + b * 256 + c) div 256 mod 256 = b"
    and "(a * 65536 + b * 256 + c) mod 256 = c"
proof -
  have r: "b * 256 + c < 65536" using assms by linarith
  have "(a * 65536 + (b * 256 + c)) div 65536 = a" by (rule div_add_small [OF r])
  then show "(a * 65536 + b * 256 + c) div 65536 = a" by (simp only: add.assoc)
  have e: "a * 65536 + b * 256 + c = (a * 256 + b) * 256 + c" by simp
  have "((a * 256 + b) * 256 + c) div 256 = a * 256 + b" by (rule div_add_small [OF assms(2)])
  moreover have "(a * 256 + b) mod 256 = b" using assms by simp
  ultimately show "(a * 65536 + b * 256 + c) div 256 mod 256 = b" by (simp only: e)
  have "((a * 256 + b) * 256 + c) mod 256 = c mod 256" by (rule mod_mult_self3)
  then show "(a * 65536 + b * 256 + c) mod 256 = c" by (simp only: e mod_less [OF assms(2)])
qed

lemma base64_expand2:
  "n div 4096 * 4096 + (n div 64 mod 64) * 64 + n mod 64 = (n::nat)"
proof -
  have a: "n div 4096 = n div 64 div 64" by (simp add: div_mult2_eq [symmetric])
  have "n = n div 64 * 64 + n mod 64" by simp
  moreover have "n div 64 = n div 64 div 64 * 64 + n div 64 mod 64" by simp
  ultimately show ?thesis unfolding a by linarith
qed

lemma rfc_decode_encode: "rfc4648_decode (rfc4648_encode data) = Some data"
proof (induction data rule: rfc4648_encode.induct)
  case (1 a b c rest)
  define n where "n = unat a * 65536 + unat b * 256 + unat c"
  note lt = unat_byte_lt [of a] unat_byte_lt [of b] unat_byte_lt [of c]
  have n: "n < 16777216" unfolding n_def using lt by linarith
  have d: "n div 262144 < 64" "n div 4096 mod 64 < 64" "n div 64 mod 64 < 64" "n mod 64 < 64"
    using n by simp_all
  have enc: "rfc4648_encode (a # b # c # rest) =
      rfc4648_alphabet (n div 262144) # rfc4648_alphabet (n div 4096 mod 64) #
      rfc4648_alphabet (n div 64 mod 64) # rfc4648_alphabet (n mod 64) # rfc4648_encode rest"
    by (simp add: n_def Let_def)
  have q: "n div 65536 = unat a" "n div 256 mod 256 = unat b" "n mod 256 = unat c"
    unfolding n_def by (rule bytes_of_group [OF lt(2) lt(3)])+
  show ?case
    unfolding enc
    by (simp add: alphabet_not_pad index_alphabet d base64_expand "1.IH" q
        del: rfc4648_encode.simps)
next
  case (2 a b)
  define n where "n = (unat a * 256 + unat b) * 4"
  note lt = unat_byte_lt [of a] unat_byte_lt [of b]
  have n: "n < 262144" unfolding n_def using lt by simp
  have d: "n div 4096 < 64" "n div 64 mod 64 < 64" "n mod 64 < 64"
    using n by simp_all
  have enc: "rfc4648_encode [a, b] =
      [rfc4648_alphabet (n div 4096), rfc4648_alphabet (n div 64 mod 64),
       rfc4648_alphabet (n mod 64), CHR ''='']"
    by (simp add: n_def Let_def)
  have "n div 4 = unat a * 256 + unat b" unfolding n_def by simp
  moreover have "(unat a * 256 + unat b) div 256 = unat a" by (rule div_add_small [OF lt(2)])
  moreover have "(unat a * 256 + unat b) mod 256 = unat b" using lt by simp
  ultimately have q: "n div 4 div 256 = unat a" "n div 4 mod 256 = unat b" by simp_all
  show ?case
    unfolding enc
    by (simp add: alphabet_not_pad index_alphabet d base64_expand2 q)
next
  case (3 a)
  define n where "n = unat a * 16"
  note lt = unat_byte_lt [of a]
  have n: "n < 4096" unfolding n_def using lt by linarith
  have d: "n div 64 < 64" "n mod 64 < 64"
    using n by simp_all
  have enc: "rfc4648_encode [a] =
      [rfc4648_alphabet (n div 64), rfc4648_alphabet (n mod 64), CHR ''='', CHR ''='']"
    by (simp add: n_def Let_def)
  have q: "n div 16 = unat a" unfolding n_def by simp
  show ?case
    unfolding enc
    by (simp add: alphabet_not_pad index_alphabet d q)
next
  case 4
  show ?case by simp
qed

text \<open>
  Claim C10. For every byte sequence \<open>data\<close> of length \<open>n\<close>, \<^verbatim>\<open>base64_encode\<close>
  returns a string of length \<open>4 * \<lceil>n / 3\<rceil>\<close> (written \<open>4 * ((n + 2) div 3)\<close>) whose
  characters are in the alphabet \<^verbatim>\<open>base64_chars\<close> or are the padding character; the
  string is the RFC 4648 encoding of \<open>data\<close>, and the RFC 4648 decoder gives \<open>data\<close>
  back from it.
\<close>

theorem base64_encode_rfc4648:
  "length (base64_encode data) = 4 * ((length data + 2) div 3)
   \<and> set (base64_encode data) \<subseteq> set base64_chars \<union> {CHR ''=''}
   \<and> base64_encode data = rfc4648_encode data
   \<and> rfc4648_decode (base64_encode data) = Some data"
  unfolding base64_encode_eq_rfc
  using rfc_encode_length rfc_encode_chars rfc_decode_encode by blast

text \<open>The theorem at the four bytes \<open>4d 61 6e ff\<close>, evaluated.\<close>

theorem base64_encode_rfc4648_witness:
  "base64_encode [0x4d, 0x61, 0x6e, 0xff] = ''TWFu/w==''
   \<and> rfc4648_decode ''TWFu/w=='' = Some [0x4d, 0x61, 0x6e, 0xff]"
proof -
  have e: "base64_encode [0x4d, 0x61, 0x6e, 0xff] = ''TWFu/w==''"
    by (simp add: base64_encode_def encode_tail_def put_chars_def make_arr4_def base64_chars_def)
       (simp add: numeral_2_eq_2)
  have "rfc4648_decode (base64_encode [0x4d, 0x61, 0x6e, 0xff]) = Some [0x4d, 0x61, 0x6e, 0xff]"
    using base64_encode_rfc4648 [of "[0x4d, 0x61, 0x6e, 0xff]"] by blast
  then show ?thesis by (simp only: e simp_thms)
qed

subsection \<open>\<^verbatim>\<open>ArchiveReader\<close>: walking, rewinding, indexing\<close>

lemma int_small: "n < 2 ^ 31 \<Longrightarrow> int n < 2 ^ 31"
  by (metis of_nat_less_iff of_nat_numeral of_nat_power)

lemma int_small64: "n < 2 ^ 31 \<Longrightarrow> int n < 2 ^ 64"
proof -
  assume "n < 2 ^ 31"
  then have "int n < 2 ^ 31" by (rule int_small)
  moreover have "(2::int) ^ 31 < 2 ^ 64" by simp
  ultimately show ?thesis by (rule less_trans)
qed

lemma to_int_small: "n < 2 ^ 31 \<Longrightarrow> to_int n = int n"
proof -
  assume "n < 2 ^ 31"
  then have "int n < 2 ^ 31" by (rule int_small)
  then have "signed_take_bit 31 (int n) = int n"
    by (intro signed_take_bit_int_eq_self) simp_all
  then show ?thesis by (simp add: to_int_def signed_of_nat)
qed

lemma to_size_t_small: "0 \<le> k \<Longrightarrow> k < 2 ^ 64 \<Longrightarrow> to_size_t k = nat k"
  by (simp add: to_size_t_def)

lemma walk_found:
  "- 1 \<le> cur \<Longrightarrow> cur < int t \<Longrightarrow> nat (int t - cur - 1) < length es \<Longrightarrow> int t < 2 ^ 64 \<Longrightarrow>
   walk es cur t = (drop (nat (int t - cur)) es, int t, read_entry (es ! nat (int t - cur - 1)))"
proof (induction es arbitrary: cur)
  case Nil
  then show ?case by simp
next
  case (Cons e es)
  have sz: "to_size_t (cur + 1) = nat (cur + 1)"
    using Cons.prems by (intro to_size_t_small) simp_all
  show ?case
  proof (cases "cur + 1 = int t")
    case True
    then have a: "nat (int t - cur) = Suc 0" and b: "nat (int t - cur - 1) = 0"
      by linarith+
    have "to_size_t (cur + 1) = t" using sz True by simp
    then show ?thesis using True by (simp add: Let_def a b)
  next
    case False
    then have lt: "cur + 1 < int t" using Cons.prems by simp
    have ne: "nat (cur + 1) \<noteq> t" using False Cons.prems by linarith
    have a: "nat (int t - cur) = Suc (nat (int t - (cur + 1)))" 
      and b: "nat (int t - cur - 1) = Suc (nat (int t - (cur + 1) - 1))"
      using lt by linarith+
    have "walk es (cur + 1) t = (drop (nat (int t - (cur + 1))) es, int t,
            read_entry (es ! nat (int t - (cur + 1) - 1)))"
      using Cons.prems lt b by (intro Cons.IH) simp_all
    then show ?thesis using sz ne a b by (simp add: Let_def)
  qed
qed

lemma walk_missed:
  "int t \<le> cur \<Longrightarrow> cur + int (length es) < 2 ^ 64 \<Longrightarrow>
   walk es cur t = ([], cur + int (length es), [])"
proof (induction es arbitrary: cur)
  case Nil
  then show ?case by simp
next
  case (Cons e es)
  have sz: "to_size_t (cur + 1) = nat (cur + 1)"
    using Cons.prems by (intro to_size_t_small) simp_all
  have ne: "nat (cur + 1) \<noteq> t" using Cons.prems by linarith
  have "walk es (cur + 1) t = ([], cur + 1 + int (length es), [])"
    using Cons.prems by (intro Cons.IH) simp_all
  then show ?case using sz ne by (simp add: Let_def)
qed


lemma read_page_found:
  assumes inv: "reader_inv fs s"
    and p: "p < length (entries s)"
    and small: "length (open_handle fs (archive_path s)) < 2 ^ 31"
    and ne: "current_entry s \<noteq> int (index_in_archive (entries s ! p))"
  defines "file \<equiv> open_handle fs (archive_path s)"
    and "t \<equiv> index_in_archive (entries s ! p)"
  shows "snd (read_page fs s p) = read_entry (file ! t)"
    and "current_entry (fst (read_page fs s p)) = int t"
    and "archive_handle (fst (read_page fs s p)) = Some (drop (t + 1) file)"
    and "entries (fst (read_page fs s p)) = entries s"
    and "archive_path (fst (read_page fs s p)) = archive_path s"
    and "calls (fst (read_page fs s p)) =
           calls s @ (if current_entry s > int t \<or> current_entry s = - 1
                      then [ReadFree, ReadOpen (archive_path s)] else [])"
proof -
  have cur: "- 1 \<le> current_entry s"
    and h: "archive_handle s = Some (drop (nat (current_entry s + 1)) file)"
    and idx: "\<forall>e \<in> set (entries s). index_in_archive e < length file"
    using inv by (simp_all add: reader_inv_def Let_def file_def)
  have t: "t < length file" using idx p by (simp add: t_def)
  have t31: "t < 2 ^ 31" using t small by (simp add: file_def)
  have ti: "to_int t = int t" by (rule to_int_small [OF t31])
  have t64: "int t < 2 ^ 64" by (rule int_small64 [OF t31])
  have guard: "\<not> (p \<ge> length (entries s) \<or> archive_handle s = None)"
    using p h by simp
  have main: "snd (read_page fs s p) = read_entry (file ! t) \<and>
      current_entry (fst (read_page fs s p)) = int t \<and>
      archive_handle (fst (read_page fs s p)) = Some (drop (t + 1) file) \<and>
      entries (fst (read_page fs s p)) = entries s \<and>
      archive_path (fst (read_page fs s p)) = archive_path s \<and>
      calls (fst (read_page fs s p)) =
           calls s @ (if current_entry s > int t \<or> current_entry s = - 1
                      then [ReadFree, ReadOpen (archive_path s)] else [])"
  proof (cases "current_entry s > int t \<or> current_entry s = - 1")
    case True
    have w: "walk file (- 1) t = (drop (nat (int t - (- 1))) file, int t,
               read_entry (file ! nat (int t - (- 1) - 1)))"
      using t t64 by (intro walk_found) simp_all
    have n1: "nat (int t - (- 1)) = t + 1" and n2: "nat (int t - (- 1) - 1) = t" by simp_all
    show ?thesis
      using True guard w unfolding n1 n2
      by (simp add: read_page_def Let_def rewind_def ti file_def [symmetric] t_def [symmetric])
  next
    case False
    then have lo: "0 \<le> current_entry s" and hi: "current_entry s < int t"
      using cur ne by (simp_all add: t_def)
    define k where "k = nat (current_entry s + 1)"
    have k: "current_entry s = int k - 1" "k \<le> t" using lo hi by (simp_all add: k_def)
    have w: "walk (drop k file) (current_entry s) t =
               (drop (nat (int t - current_entry s)) (drop k file), int t,
                read_entry (drop k file ! nat (int t - current_entry s - 1)))"
      using t t64 cur hi k by (intro walk_found) simp_all
    have n1: "nat (int t - current_entry s) + k = t + 1"
      and n2: "k + nat (int t - current_entry s - 1) = t"
      using k by simp_all
    have d1: "drop (nat (int t - current_entry s)) (drop k file) = drop (t + 1) file"
      by (simp only: drop_drop n1)
    have d2: "drop k file ! nat (int t - current_entry s - 1) = file ! t"
      using t k n2 by (simp add: nth_drop)
    show ?thesis
      using False guard h w unfolding d1 d2 k_def [symmetric]
      by (simp add: read_page_def Let_def ti t_def [symmetric])
  qed
  show "snd (read_page fs s p) = read_entry (file ! t)"
    and "current_entry (fst (read_page fs s p)) = int t"
    and "archive_handle (fst (read_page fs s p)) = Some (drop (t + 1) file)"
    and "entries (fst (read_page fs s p)) = entries s"
    and "archive_path (fst (read_page fs s p)) = archive_path s"
    and "calls (fst (read_page fs s p)) =
           calls s @ (if current_entry s > int t \<or> current_entry s = - 1
                      then [ReadFree, ReadOpen (archive_path s)] else [])"
    using main by blast+
qed

lemma index_entries_range:
  "e \<in> set (index_entries es k) \<Longrightarrow> k \<le> index_in_archive e \<and> index_in_archive e < k + length es"
  by (induction es k rule: index_entries.induct) (auto split: if_splits)

lemma index_entries_distinct: "distinct (map index_in_archive (index_entries es k))"
proof (induction es k rule: index_entries.induct)
  case (1 idx)
  show ?case by simp
next
  case (2 e es idx)
  have "idx \<notin> index_in_archive ` set (index_entries es (idx + 1))"
    using index_entries_range [of _ es "idx + 1"] by fastforce
  with 2 show ?case by simp
qed

lemma insert_by_mset: "insert_by cmp x ys = Inr zs \<Longrightarrow> mset zs = add_mset x (mset ys)"
  by (induction ys arbitrary: zs) (auto split: sum.splits bool.splits)

lemma std_sort_mset: "std_sort cmp xs = Inr ys \<Longrightarrow> mset ys = mset xs"
  by (induction xs arbitrary: ys) (auto split: sum.splits dest: insert_by_mset)

lemma ar_open_inv:
  assumes "fs path = Some file" and "ar_open fs s0 path = Inr (s, ok)"
  shows "reader_inv fs s" and "current_entry s = - 1" and "archive_path s = path"
    and "archive_handle s = Some file" and "ok = (entries s \<noteq> [])"
    and "mset (entries s) = mset (index_entries file 0)"
proof -
  from assms obtain pages where
    srt: "std_sort (\<lambda>a b. natural_sort_compare (name a) (name b)) (index_entries file 0) = Inr pages"
    and s: "s = ((ar_close s0)\<lparr>archive_path := path\<rparr>)\<lparr>archive_handle := Some file,
               entries := pages, current_entry := - 1,
               calls := calls (ar_close s0) @ [ReadOpen path] @ [ReadFree, ReadOpen path]\<rparr>"
    and ok: "ok = (pages \<noteq> [])"
    by (auto simp: ar_open_def Let_def open_handle_def split: sum.splits)
  have m: "mset pages = mset (index_entries file 0)" by (rule std_sort_mset [OF srt])
  then have "set pages = set (index_entries file 0)" by (rule mset_eq_setD)
  then have r: "\<forall>e \<in> set pages. index_in_archive e < length file"
    using index_entries_range [of _ "file" 0] by auto
  have "mset (map index_in_archive pages) = mset (map index_in_archive (index_entries file 0))"
    using m by simp
  then have d: "distinct (map index_in_archive pages)"
    using index_entries_distinct by (metis mset_eq_imp_distinct_iff)
  show "reader_inv fs s"
    using r d assms(1) by (simp add: reader_inv_def s open_handle_def Let_def)
  show "current_entry s = - 1" "archive_path s = path" "archive_handle s = Some file"
    by (simp_all add: s)
  show "ok = (entries s \<noteq> [])" by (simp add: s ok)
  show "mset (entries s) = mset (index_entries file 0)" by (simp add: s m)
qed

lemma read_page_found_inv:
  assumes inv: "reader_inv fs s"
    and p: "p < length (entries s)"
    and small: "length (open_handle fs (archive_path s)) < 2 ^ 31"
    and ne: "current_entry s \<noteq> int (index_in_archive (entries s ! p))"
  shows "reader_inv fs (fst (read_page fs s p))"
proof -
  note f = read_page_found [OF assms]
  have "index_in_archive (entries s ! p) < length (open_handle fs (archive_path s))"
    using inv p by (simp add: reader_inv_def Let_def)
  moreover have "nat (int (index_in_archive (entries s ! p)) + 1) = index_in_archive (entries s ! p) + 1"
    by simp
  ultimately show ?thesis
    using inv unfolding reader_inv_def Let_def f(2) f(3) f(4) f(5) by auto
qed

lemma read_entry_well_formed:
  "well_formed file \<Longrightarrow> t < length file \<Longrightarrow> entry_data (file ! t) = Some (read_entry (file ! t))"
proof -
  assume "well_formed file" "t < length file"
  then obtain d where "entry_data (file ! t) = Some d" "length d = entry_size (file ! t)"
    unfolding well_formed_def by (meson nth_mem)
  then show ?thesis by (simp add: read_entry_def)
qed

text \<open>The example archive, opened and read.\<close>

lemma example_open: "ar_open example_fs new_reader ''a.cbz'' = Inr (example_session, True)"
  by code_simp

lemma example_well_formed: "well_formed example_archive"
  by (simp add: well_formed_def example_archive_def)

lemma example_read_1: "read_page example_fs example_session 1 =
  (example_session\<lparr>archive_handle := Some (drop 1 example_archive), current_entry := 0,
     calls := calls example_session @ [ReadFree, ReadOpen ''a.cbz'']\<rparr>, [2])"
  by code_simp

text \<open>The comparator on the three page names, and the sorted orders of three entries.\<close>

lemma compare_page_names:
  "natural_sort_compare ''page2.jpg'' ''page10.jpg'' = Inr True"
  "natural_sort_compare ''page10.jpg'' ''page2.jpg'' = Inr False"
  "natural_sort_compare ''page1.jpg'' ''page2.jpg'' = Inr True"
  "natural_sort_compare ''page2.jpg'' ''page1.jpg'' = Inr False"
  "natural_sort_compare ''page1.jpg'' ''page10.jpg'' = Inr True"
  "natural_sort_compare ''page10.jpg'' ''page1.jpg'' = Inr False"
  by code_simp+

lemma page_names_are_images:
  "is_image_name ''page2.jpg''" "is_image_name ''page10.jpg''" "is_image_name ''page1.jpg''"
  by code_simp+

lemma perm3:
  assumes "mset ys = mset [a, b, c]"
  shows "ys = [a, b, c] \<or> ys = [a, c, b] \<or> ys = [b, a, c] \<or> ys = [b, c, a]
       \<or> ys = [c, a, b] \<or> ys = [c, b, a]"
proof -
  have "length ys = 3" using assms by (metis length_Cons list.size(3) mset_eq_length numeral_3_eq_3)
  then obtain x y z where ys: "ys = [x, y, z]"
    by (metis length3E)
  show ?thesis using assms unfolding ys
    by (auto simp: add_eq_conv_ex)
qed


lemma sorted_pages_unique:
  assumes m: "mset ys = mset
      [\<lparr>name = ''page2.jpg'', index_in_archive = 0\<rparr>,
       \<lparr>name = ''page10.jpg'', index_in_archive = 1\<rparr>,
       \<lparr>name = ''page1.jpg'', index_in_archive = 2\<rparr>]"
    and s: "sorted_wrt (\<lambda>a b. natural_sort_compare (name b) (name a) = Inr False) ys"
  shows "map name ys = [''page1.jpg'', ''page2.jpg'', ''page10.jpg'']"
  using perm3 [OF m] s by (auto simp: compare_page_names)

subsection \<open>The page cache\<close>

lemma load_page_miss:
  assumes "page_cache st p = None" and "snd (load_page fs st p) \<noteq> []"
  shows "page_cache (fst (load_page fs st p)) =
           (\<lambda>k. if \<bar>k - p\<bar> > 2 then None else page_cache st k)(p \<mapsto> snd (load_page fs st p))"
  using assms by (auto simp: load_page_def Let_def split: prod.splits)

lemma load_page_miss_dom:
  assumes "page_cache st p = None" and "snd (load_page fs st p) \<noteq> []"
  shows "dom (page_cache (fst (load_page fs st p))) = insert p {k \<in> dom (page_cache st). \<bar>k - p\<bar> \<le> 2}"
  unfolding load_page_miss [OF assms] by (auto split: if_splits)

lemma load_pages_Cons:
  "load_pages fs st (p # ps) = load_page fs st p # load_pages fs (fst (load_page fs st p)) ps"
  by (simp split: prod.splits)

lemma load_page_miss_entry:
  assumes "page_cache st p = None" and "snd (load_page fs st p) \<noteq> []"
  shows "page_cache (fst (load_page fs st p)) p = Some (snd (load_page fs st p))"
  unfolding load_page_miss [OF assms] by simp

lemma outside_dom: "dom m = D \<Longrightarrow> k \<notin> D \<Longrightarrow> m k = None"
  by (metis domIff)

lemma less5: "i < 5 \<longleftrightarrow> i = 0 \<or> i = 1 \<or> i = 2 \<or> i = 3 \<or> i = (4::nat)"
  by linarith

lemma example_loads:
  "map snd (load_pages example_fs example_reader [0, 1, 2, 3, 4]) = [[1], [2], [3], [4], [5]]"
  by code_simp

subsection \<open>The crop window and the chunks of \<^verbatim>\<open>render_kitty\<close>\<close>

text \<open>Where the exact result is an \<^verbatim>\<open>int\<close>, the operation does not wrap.\<close>

lemma int32_id: "- (2 ^ 31) \<le> v \<Longrightarrow> v < 2 ^ 31 \<Longrightarrow> int32 v = v"
  by (simp add: int32_def)

lemma int32_range: "- (2 ^ 31) \<le> int32 v" "int32 v < 2 ^ 31"
  by (simp_all add: int32_def)

lemma crop_region_exact:
  assumes "\<bar>new_w\<bar> < 2 ^ 30" "\<bar>new_h\<bar> < 2 ^ 30" "\<bar>target_w\<bar> < 2 ^ 30" "\<bar>target_h\<bar> < 2 ^ 30"
  shows "crop_region new_w new_h target_w target_h px py =
     \<lparr>clamped_pan_x = clamp px (- max 0 (new_w - target_w)) 0,
      clamped_pan_y = clamp py (- max 0 (new_h - target_h)) 0,
      crop_x = - clamp px (- max 0 (new_w - target_w)) 0,
      crop_y = - clamp py (- max 0 (new_h - target_h)) 0,
      crop_w = min (new_w + clamp px (- max 0 (new_w - target_w)) 0) target_w,
      crop_h = min (new_h + clamp py (- max 0 (new_h - target_h)) 0) target_h\<rparr>"
proof -
  have axis: "sub32 n t = n - t \<and> neg32 (max 0 (n - t)) = - max 0 (n - t)
      \<and> abs32 (clamp p (- max 0 (n - t)) 0) = - clamp p (- max 0 (n - t)) 0
      \<and> sub32 n (- clamp p (- max 0 (n - t)) 0) = n + clamp p (- max 0 (n - t)) 0"
    if "\<bar>n\<bar> < 2 ^ 30" "\<bar>t\<bar> < 2 ^ 30" for n t p :: int
  proof -
    have a: "sub32 n t = n - t" unfolding sub32_def using that by (intro int32_id) simp_all
    have b: "neg32 (max 0 (n - t)) = - max 0 (n - t)"
      unfolding neg32_def using that by (intro int32_id) simp_all
    have r: "- max 0 (n - t) \<le> clamp p (- max 0 (n - t)) 0" "clamp p (- max 0 (n - t)) 0 \<le> 0"
      by (simp_all add: clamp_def)
    have c: "abs32 (clamp p (- max 0 (n - t)) 0) = - clamp p (- max 0 (n - t)) 0"
    proof -
      have "int32 \<bar>clamp p (- max 0 (n - t)) 0\<bar> = \<bar>clamp p (- max 0 (n - t)) 0\<bar>"
        using that r by (intro int32_id) simp_all
      then show ?thesis using r by (simp add: abs32_def)
    qed
    have d: "sub32 n (- clamp p (- max 0 (n - t)) 0) = n + clamp p (- max 0 (n - t)) 0"
    proof -
      have "int32 (n - (- clamp p (- max 0 (n - t)) 0)) = n - (- clamp p (- max 0 (n - t)) 0)"
        using that r by (intro int32_id) (simp_all add: max_def split: if_splits)
      then show ?thesis by (simp add: sub32_def)
    qed
    from a b c d show ?thesis by blast
  qed
  show ?thesis
    unfolding crop_region_def Let_def
    using axis [OF assms(1) assms(3), of px] axis [OF assms(2) assms(4), of py]
    by simp
qed

lemma add32_id: "- (2 ^ 31) \<le> a + b \<Longrightarrow> a + b < 2 ^ 31 \<Longrightarrow> add32 a b = a + b"
  by (simp add: add32_def int32_id)

lemma mul32_id: "- (2 ^ 31) \<le> a * b \<Longrightarrow> a * b < 2 ^ 31 \<Longrightarrow> mul32 a b = a * b"
  by (simp add: mul32_def int32_id)

lemma loop_cells_product: "loop_cells c = List.product [0..crop_h c - 1] [0..crop_w c - 1]"
  by (simp add: loop_cells_def product_concat_map)

lemma loop_cells_set:
  "yx \<in> set (loop_cells c) \<longleftrightarrow> 0 \<le> fst yx \<and> fst yx < crop_h c \<and> 0 \<le> snd yx \<and> snd yx < crop_w c"
  by (cases yx) (auto simp: loop_cells_product)

lemma loop_cells_length:
  "0 \<le> crop_w c \<Longrightarrow> 0 \<le> crop_h c \<Longrightarrow> length (loop_cells c) = nat (crop_h c) * nat (crop_w c)"
  by (simp add: loop_cells_product)

lemma loop_cells_nth:
  assumes "0 < crop_w c" "0 < crop_h c" "k < nat (crop_h c) * nat (crop_w c)"
  shows "loop_cells c ! k = (int (k div nat (crop_w c)), int (k mod nat (crop_w c)))"
proof -
  have lw: "length [0..crop_w c - 1] = nat (crop_w c)" using assms by simp
  have lh: "length [0..crop_h c - 1] = nat (crop_h c)" using assms by simp
  have k: "k < length [0..crop_h c - 1] * length [0..crop_w c - 1]" using assms lw lh by simp
  have d: "k div nat (crop_w c) < nat (crop_h c)"
    using assms by (simp add: less_mult_imp_div_less)
  have m: "k mod nat (crop_w c) < nat (crop_w c)" using assms by simp
  have "loop_cells c ! k = ([0..crop_h c - 1] ! (k div nat (crop_w c)),
                            [0..crop_w c - 1] ! (k mod nat (crop_w c)))"
    unfolding loop_cells_product using product_nth [OF k] by (simp only: lw)
  moreover have "[0..crop_h c - 1] ! (k div nat (crop_w c)) = int (k div nat (crop_w c))"
    using d by (subst nth_upto) simp_all
  moreover have "[0..crop_w c - 1] ! (k mod nat (crop_w c)) = int (k mod nat (crop_w c))"
    using m by (subst nth_upto) simp_all
  ultimately show ?thesis by simp
qed

text \<open>One step of the loop on a vector whose next three bytes are at the destination.\<close>

lemma copy_pixel_fill:
  assumes s: "0 \<le> src_idx new_w c (snd yx) (fst yx)"
      "src_idx new_w c (snd yx) (fst yx) + 2 < int (length resized)"
      "int (length resized) \<le> 2 ^ 31"
    and d: "dst_idx c (snd yx) (fst yx) = int (length pre)" "int (length pre) + 2 < 2 ^ 31"
  shows "copy_pixel resized new_w c yx (pre @ a # b # e # post) =
         Inr (pre @ [resized ! nat (src_idx new_w c (snd yx) (fst yx)),
                     resized ! nat (src_idx new_w c (snd yx) (fst yx) + 1),
                     resized ! nat (src_idx new_w c (snd yx) (fst yx) + 2)] @ post)"
proof -
  define si where "si = src_idx new_w c (snd yx) (fst yx)"
  have sa: "add32 si 0 = si" "add32 si 1 = si + 1" "add32 si 2 = si + 2"
    using s unfolding si_def [symmetric] by (simp_all add: add32_id)
  have da: "add32 (int (length pre)) 0 = int (length pre)"
    "add32 (int (length pre)) 1 = int (length pre) + 1"
    "add32 (int (length pre)) 2 = int (length pre) + 2"
    using d(2) by (simp_all add: add32_id)
  have n: "nat (int (length pre) + 1) = length pre + 1" "nat (int (length pre) + 2) = length pre + 2"
    by simp_all
  have u: "(pre @ a # b # e # post)[length pre := x, length pre + 1 := y, length pre + 2 := z]
           = pre @ [x, y, z] @ post" for x y z
    by (simp add: list_update_append)
  show ?thesis
    unfolding copy_pixel_def Let_def si_def [symmetric] d(1)
    using s unfolding si_def [symmetric]
    by (simp add: sa da in_vector_def n list_update_append)
qed

lemma copy_loop_fill:
  assumes "\<forall>yx \<in> set rest. 0 \<le> src_idx new_w c (snd yx) (fst yx)
             \<and> src_idx new_w c (snd yx) (fst yx) + 2 < int (length resized)"
    and "int (length resized) \<le> 2 ^ 31"
    and "\<forall>k < length rest. dst_idx c (snd (rest ! k)) (fst (rest ! k)) = int (length pre) + 3 * int k"
    and "int (length pre) + 3 * int (length rest) \<le> 2 ^ 31"
  shows "copy_loop resized new_w c rest (pre @ replicate (3 * length rest) 0) =
         Inr (pre @ concat (map (\<lambda>yx. [resized ! nat (src_idx new_w c (snd yx) (fst yx)),
                                      resized ! nat (src_idx new_w c (snd yx) (fst yx) + 1),
                                      resized ! nat (src_idx new_w c (snd yx) (fst yx) + 2)]) rest))"
  using assms
proof (induction rest arbitrary: pre)
  case Nil
  then show ?case by simp
next
  case (Cons yx rest)
  let ?px = "[resized ! nat (src_idx new_w c (snd yx) (fst yx)),
              resized ! nat (src_idx new_w c (snd yx) (fst yx) + 1),
              resized ! nat (src_idx new_w c (snd yx) (fst yx) + 2)]"
  have r: "replicate (3 * length (yx # rest)) (0 :: byte) = 0 # 0 # 0 # replicate (3 * length rest) 0"
    by (simp add: numeral_3_eq_3)
  have d0: "dst_idx c (snd yx) (fst yx) = int (length pre)"
    using Cons.prems(3) by (auto dest: spec [of _ 0])
  have step: "copy_pixel resized new_w c yx (pre @ 0 # 0 # 0 # replicate (3 * length rest) 0) =
        Inr (pre @ ?px @ replicate (3 * length rest) 0)"
    using Cons.prems by (intro copy_pixel_fill d0) simp_all
  have dk: "\<forall>k < length rest. dst_idx c (snd (rest ! k)) (fst (rest ! k)) =
        int (length (pre @ ?px)) + 3 * int k"
  proof (intro allI impI)
    fix k assume "k < length rest"
    then have "Suc k < length (yx # rest)" by simp
    from Cons.prems(3) [rule_format, OF this] show "dst_idx c (snd (rest ! k)) (fst (rest ! k)) =
        int (length (pre @ ?px)) + 3 * int k" by simp
  qed
  have ih: "copy_loop resized new_w c rest ((pre @ ?px) @ replicate (3 * length rest) 0) =
        Inr ((pre @ ?px) @ concat (map (\<lambda>yx. [resized ! nat (src_idx new_w c (snd yx) (fst yx)),
                                      resized ! nat (src_idx new_w c (snd yx) (fst yx) + 1),
                                      resized ! nat (src_idx new_w c (snd yx) (fst yx) + 2)]) rest))"
    using Cons.prems dk by (intro Cons.IH) simp_all
  show ?case
    unfolding r copy_loop.simps step using ih by simp
qed

lemma crop_region_bounds:
  fixes new_w new_h target_w target_h px py :: int
  assumes "\<bar>new_w\<bar> < 2 ^ 30" "\<bar>new_h\<bar> < 2 ^ 30" "\<bar>target_w\<bar> < 2 ^ 30" "\<bar>target_h\<bar> < 2 ^ 30"
  defines "c \<equiv> crop_region new_w new_h target_w target_h px py"
  shows "- max 0 (new_w - target_w) \<le> clamped_pan_x c" "clamped_pan_x c \<le> 0"
    and "- max 0 (new_h - target_h) \<le> clamped_pan_y c" "clamped_pan_y c \<le> 0"
    and "crop_x c = - clamped_pan_x c" "crop_y c = - clamped_pan_y c"
    and "0 \<le> crop_x c" "crop_x c + crop_w c \<le> new_w"
    and "0 \<le> crop_y c" "crop_y c + crop_h c \<le> new_h"
    and "crop_w c \<le> target_w" "crop_h c \<le> target_h"
    and "crop_w c = min (new_w - crop_x c) target_w" "crop_h c = min (new_h - crop_y c) target_h"
  unfolding c_def crop_region_exact [OF assms(1-4)]
  by (simp_all add: clamp_def)

lemma pixel_index_bound:
  fixes X Y w h k :: int
  assumes "0 \<le> X" "X < w" "0 \<le> Y" "Y < h" "0 \<le> k" "k \<le> 2"
  shows "0 \<le> (Y * w + X) * 3 + k" and "(Y * w + X) * 3 + k < w * h * 3"
    and "0 \<le> Y * w" and "Y * w \<le> Y * w + X" and "Y * w + X \<le> (Y * w + X) * 3"
proof -
  have w: "0 < w" using assms by linarith
  show yw: "0 \<le> Y * w" using assms w by simp
  then have "0 \<le> Y * w + X" using assms by linarith
  then have "0 \<le> (Y * w + X) * 3" by simp
  then show "0 \<le> (Y * w + X) * 3 + k" using assms by linarith
  have "Y * w \<le> (h - 1) * w" using assms w by (intro mult_right_mono) simp_all
  then have "Y * w + X \<le> h * w - 1" using assms by (simp add: algebra_simps)
  then have "(Y * w + X) * 3 \<le> (h * w - 1) * 3" by simp
  then have "(Y * w + X) * 3 + k \<le> (h * w - 1) * 3 + 2" using assms by linarith
  then show "(Y * w + X) * 3 + k < w * h * 3" by (simp add: algebra_simps)
  show "Y * w \<le> Y * w + X" using assms by simp
  show "Y * w + X \<le> (Y * w + X) * 3" using \<open>0 \<le> Y * w + X\<close> by simp
qed

text \<open>Inside a buffer that fits an \<^verbatim>\<open>int\<close> the index arithmetic does not wrap.\<close>

lemma index_exact:
  fixes X Y w h :: int
  assumes "0 \<le> X" "X < w" "0 \<le> Y" "Y < h" "w * h * 3 < 2 ^ 31"
  shows "mul32 (add32 (mul32 Y w) X) 3 = (Y * w + X) * 3"
proof -
  note b = pixel_index_bound [OF assms(1-4), of 0]
  have top: "(Y * w + X) * 3 < 2 ^ 31" using b(2) assms(5) by simp
  have a: "mul32 Y w = Y * w" using b top by (intro mul32_id) linarith+
  have c: "add32 (Y * w) X = Y * w + X" using b top by (intro add32_id) linarith+
  have d: "mul32 (Y * w + X) 3 = (Y * w + X) * 3" using b top by (intro mul32_id) linarith+
  show ?thesis by (simp add: a c d)
qed

lemma buffer_size_exact: "\<bar>w * h * 3\<bar> < 2 ^ 31 \<Longrightarrow> buffer_size w h = w * h * 3"
proof -
  assume a: "\<bar>w * h * 3\<bar> < 2 ^ 31"
  have "\<bar>w * h\<bar> \<le> \<bar>w * h * 3\<bar>" by (simp add: abs_mult)
  then have "mul32 w h = w * h" using a by (intro mul32_id) linarith+
  moreover have "mul32 (w * h) 3 = w * h * 3" using a by (intro mul32_id) linarith+
  ultimately show ?thesis by (simp add: buffer_size_def)
qed

lemma sub_area:
  fixes a b w h :: int
  assumes "0 < a" "a \<le> w" "0 < b" "b \<le> h"
  shows "a * b * 3 \<le> w * h * 3"
proof -
  have "a * b \<le> w * h" using assms by (intro mult_mono) simp_all
  then show ?thesis by simp
qed

lemma loop_cells_empty: "\<not> (0 < crop_w c \<and> 0 < crop_h c) \<Longrightarrow> loop_cells c = []"
  by (auto simp: loop_cells_def)

lemma src_idx_exact:
  assumes b: "0 \<le> crop_x c" "crop_x c + crop_w c \<le> new_w" "0 \<le> crop_y c" "crop_y c + crop_h c \<le> new_h"
    and sz: "\<bar>new_w\<bar> < 2 ^ 30" "\<bar>new_h\<bar> < 2 ^ 30" "\<bar>new_w * new_h * 3\<bar> < 2 ^ 31"
    and yx: "yx \<in> set (loop_cells c)"
    and k: "0 \<le> k" "k \<le> 2"
  shows "src_idx new_w c (snd yx) (fst yx) = ((crop_y c + fst yx) * new_w + (crop_x c + snd yx)) * 3"
    and "add32 (src_idx new_w c (snd yx) (fst yx)) k = src_idx new_w c (snd yx) (fst yx) + k"
    and "0 \<le> src_idx new_w c (snd yx) (fst yx) + k"
    and "src_idx new_w c (snd yx) (fst yx) + k < new_w * new_h * 3"
proof -
  from yx have r: "0 \<le> fst yx" "fst yx < crop_h c" "0 \<le> snd yx" "snd yx < crop_w c"
    by (simp_all add: loop_cells_set)
  have X: "0 \<le> crop_x c + snd yx" "crop_x c + snd yx < new_w" using r b by linarith+
  have Y: "0 \<le> crop_y c + fst yx" "crop_y c + fst yx < new_h" using r b by linarith+
  have nw: "new_w < 1073741824" "new_h < 1073741824" using sz by simp_all
  have ax: "add32 (crop_x c) (snd yx) = crop_x c + snd yx"
    using X nw by (intro add32_id) simp_all
  have ay: "add32 (crop_y c) (fst yx) = crop_y c + fst yx"
    using Y nw by (intro add32_id) simp_all
  have top: "new_w * new_h * 3 < 2 ^ 31" using sz by simp
  show e: "src_idx new_w c (snd yx) (fst yx) = ((crop_y c + fst yx) * new_w + (crop_x c + snd yx)) * 3"
    unfolding src_idx_def ax ay by (rule index_exact [OF X Y top])
  note p = pixel_index_bound [OF X Y k]
  show "0 \<le> src_idx new_w c (snd yx) (fst yx) + k" unfolding e by (rule p(1))
  show lt: "src_idx new_w c (snd yx) (fst yx) + k < new_w * new_h * 3" unfolding e by (rule p(2))
  show "add32 (src_idx new_w c (snd yx) (fst yx)) k = src_idx new_w c (snd yx) (fst yx) + k"
    using p(1) lt top unfolding e by (intro add32_id) simp_all
qed

lemma dst_idx_exact:
  assumes pos: "0 < crop_w c" "0 < crop_h c"
    and top: "crop_w c * crop_h c * 3 < 2 ^ 31"
    and k: "k < length (loop_cells c)"
  shows "dst_idx c (snd (loop_cells c ! k)) (fst (loop_cells c ! k)) = 3 * int k"
proof -
  define W where "W = nat (crop_w c)"
  have W: "int W = crop_w c" "0 < W" using pos by (simp_all add: W_def)
  have kk: "k < nat (crop_h c) * nat (crop_w c)" using k pos by (simp add: loop_cells_length)
  have cell: "loop_cells c ! k = (int (k div W), int (k mod W))"
    unfolding W_def by (rule loop_cells_nth [OF pos kk])
  have y: "0 \<le> int (k div W)" "int (k div W) < crop_h c"
  proof -
    have "k div W < nat (crop_h c)" using kk W unfolding W_def by (simp add: less_mult_imp_div_less)
    then show "int (k div W) < crop_h c" by simp
  qed simp
  have x: "0 \<le> int (k mod W)" "int (k mod W) < crop_w c"
    using W by (simp_all flip: W(1))
  have "dst_idx c (int (k mod W)) (int (k div W)) = (int (k div W) * crop_w c + int (k mod W)) * 3"
    unfolding dst_idx_def by (rule index_exact [OF x y top])
  also have "int (k div W) * crop_w c + int (k mod W) = int (k div W * W + k mod W)"
    unfolding W(1) [symmetric] by (simp only: of_nat_mult of_nat_add)
  also have "k div W * W + k mod W = k" by simp
  finally show ?thesis by (simp add: cell)
qed

lemma crop_pixels_exact:
  assumes b: "0 \<le> crop_x c" "crop_x c + crop_w c \<le> new_w" "0 \<le> crop_y c" "crop_y c + crop_h c \<le> new_h"
    and sz: "\<bar>new_w\<bar> < 2 ^ 30" "\<bar>new_h\<bar> < 2 ^ 30" "\<bar>new_w * new_h * 3\<bar> < 2 ^ 31"
    and len: "int (length resized) = new_w * new_h * 3"
  shows "crop_pixels resized new_w c =
           (if 0 < crop_w c \<and> 0 < crop_h c
            then Inr (map (\<lambda>i. resized ! nat i) (copy_reads new_w c))
            else vector_of_size (buffer_size (crop_w c) (crop_h c)))"
proof (cases "0 < crop_w c \<and> 0 < crop_h c")
  case False
  then have "loop_cells c = []" by (rule loop_cells_empty)
  then show ?thesis
    unfolding crop_pixels_def if_not_P [OF False] by (simp split: sum.splits)
next
  case True
  then have pos: "0 < crop_w c" "0 < crop_h c" by simp_all
  have le: "crop_w c \<le> new_w" "crop_h c \<le> new_h" using b by linarith+
  have area: "crop_w c * crop_h c * 3 \<le> new_w * new_h * 3"
    using pos le by (intro sub_area) simp_all
  have top: "new_w * new_h * 3 < 2 ^ 31" using sz by simp
  have ctop: "crop_w c * crop_h c * 3 < 2 ^ 31" using area top by linarith
  have cpos: "0 < crop_w c * crop_h c * 3" using pos by simp
  have bs: "buffer_size (crop_w c) (crop_h c) = crop_w c * crop_h c * 3"
    using ctop cpos by (intro buffer_size_exact) linarith
  have n: "nat (crop_w c * crop_h c * 3) = 3 * length (loop_cells c)"
    using pos by (simp add: loop_cells_length nat_mult_distrib mult.commute)
  have alloc: "vector_of_size (buffer_size (crop_w c) (crop_h c)) =
      Inr ([] @ replicate (3 * length (loop_cells c)) 0)"
    using cpos by (simp add: vector_of_size_def bs n)
  have src: "\<forall>yx \<in> set (loop_cells c). 0 \<le> src_idx new_w c (snd yx) (fst yx)
             \<and> src_idx new_w c (snd yx) (fst yx) + 2 < int (length resized)"
    using src_idx_exact(3) [OF b sz, of _ 0] src_idx_exact(4) [OF b sz, of _ 2]
    by (simp add: len)
  have dst: "\<forall>k < length (loop_cells c).
      dst_idx c (snd (loop_cells c ! k)) (fst (loop_cells c ! k)) = int (length ([] :: byte list)) + 3 * int k"
    using dst_idx_exact [OF pos ctop] by simp
  have fit: "int (length ([] :: byte list)) + 3 * int (length (loop_cells c)) \<le> 2 ^ 31"
  proof -
    have "int (3 * length (loop_cells c)) = crop_w c * crop_h c * 3"
      using cpos by (simp flip: n)
    then show ?thesis using ctop by simp
  qed
  have rl: "int (length resized) \<le> 2 ^ 31" using len top by simp
  have reads: "map (\<lambda>i. resized ! nat i) (copy_reads new_w c) =
      [] @ concat (map (\<lambda>yx. [resized ! nat (src_idx new_w c (snd yx) (fst yx)),
                             resized ! nat (src_idx new_w c (snd yx) (fst yx) + 1),
                             resized ! nat (src_idx new_w c (snd yx) (fst yx) + 2)]) (loop_cells c))"
  proof -
    have a: "map (\<lambda>i. resized ! nat i) (copy_reads new_w c) =
        concat (map (\<lambda>yx. [resized ! nat (add32 (src_idx new_w c (snd yx) (fst yx)) 0),
                     resized ! nat (add32 (src_idx new_w c (snd yx) (fst yx)) 1),
                     resized ! nat (add32 (src_idx new_w c (snd yx) (fst yx)) 2)]) (loop_cells c))"
      by (simp add: copy_reads_def map_concat comp_def)
    have e: "map (\<lambda>yx. [resized ! nat (add32 (src_idx new_w c (snd yx) (fst yx)) 0),
                     resized ! nat (add32 (src_idx new_w c (snd yx) (fst yx)) 1),
                     resized ! nat (add32 (src_idx new_w c (snd yx) (fst yx)) 2)]) (loop_cells c)
        = map (\<lambda>yx. [resized ! nat (src_idx new_w c (snd yx) (fst yx)),
                     resized ! nat (src_idx new_w c (snd yx) (fst yx) + 1),
                     resized ! nat (src_idx new_w c (snd yx) (fst yx) + 2)]) (loop_cells c)"
      using src_idx_exact(2) [OF b sz, of _ 0] src_idx_exact(2) [OF b sz, of _ 1]
        src_idx_exact(2) [OF b sz, of _ 2]
      by (intro map_cong refl) simp
    show ?thesis unfolding a e by (simp only: append_Nil)
  qed
  have "crop_pixels resized new_w c = Inr (map (\<lambda>i. resized ! nat i) (copy_reads new_w c))"
    unfolding crop_pixels_def alloc reads
    by (simp only: sum.case copy_loop_fill [OF src rl dst fit])
  then show ?thesis using True by simp
qed

lemma copy_reads_length: "length (copy_reads new_w c) = 3 * length (loop_cells c)"
  by (simp add: copy_reads_def length_concat comp_def sum_list_triv)

lemma round_up_div:
  fixes a b :: int
  assumes "0 < b"
  shows "(a + b - 1) div b = \<lceil>real_of_int a / real_of_int b\<rceil>"
proof -
  define q where "q = (a + b - 1) div b"
  define r where "r = (a + b - 1) mod b"
  have r: "0 \<le> r" "r < b" using assms by (simp_all add: r_def)
  have "a + b - 1 = q * b + r" by (simp add: q_def r_def)
  then have a: "a = (q - 1) * b + (r + 1)" by (simp add: algebra_simps)
  have lo: "(q - 1) * b < a" and hi: "a \<le> q * b"
    using a r by (simp_all add: algebra_simps)
  have "real_of_int ((q - 1) * b) < real_of_int a" using lo by (simp only: of_int_less_iff)
  then have "real_of_int (q - 1) * real_of_int b < real_of_int a" by (simp only: of_int_mult)
  then have "real_of_int (q - 1) < real_of_int a / real_of_int b"
    using assms by (simp add: pos_less_divide_eq)
  moreover have "real_of_int a \<le> real_of_int (q * b)" using hi by (simp only: of_int_le_iff)
  then have "real_of_int a \<le> real_of_int q * real_of_int b" by (simp only: of_int_mult)
  then have "real_of_int a / real_of_int b \<le> real_of_int q"
    using assms by (simp add: pos_divide_le_eq)
  ultimately have "\<lceil>real_of_int a / real_of_int b\<rceil> = q"
    by (intro ceiling_unique) simp_all
  then show ?thesis by (simp add: q_def)
qed

lemma round_up_div_nat: "(n + 4095) div 4096 = nat \<lceil>real n / 4096\<rceil>"
proof -
  have "(int n + 4096 - 1) div 4096 = \<lceil>real_of_int (int n) / real_of_int 4096\<rceil>"
    by (rule round_up_div) simp
  then have "\<lceil>real n / 4096\<rceil> = int ((n + 4095) div 4096)"
    by (simp add: zdiv_int)
  then show ?thesis by simp
qed

lemma c_div_nonneg: "0 \<le> a \<Longrightarrow> 0 < b \<Longrightarrow> c_div a b = Inr (a div b)"
  by (simp add: c_div_def)

lemma c_div_ok: "0 < b \<Longrightarrow> \<exists>q. c_div a b = Inr q"
  by (simp add: c_div_def)

lemma send_chunks_done: "length b64 \<le> offset \<Longrightarrow> send_chunks b64 offset cw ch pl = []"
  by (subst send_chunks.simps) simp

lemma send_chunks_step:
  "offset < length b64 \<Longrightarrow>
   send_chunks b64 offset cw ch pl =
     (if offset = 0
      then FirstFrame cw ch (cols_needed pl) (rows_needed pl)
             (if offset + min 4096 (length b64 - offset) \<ge> length b64 then 0 else 1)
             (take (min 4096 (length b64 - offset)) (drop offset b64))
      else NextFrame (if offset + min 4096 (length b64 - offset) \<ge> length b64 then 0 else 1)
             (take (min 4096 (length b64 - offset)) (drop offset b64)))
     # send_chunks b64 (offset + min 4096 (length b64 - offset)) cw ch pl"
  by (subst send_chunks.simps) (simp add: Let_def)

lemma send_chunks_payload:
  "concat (map frame_payload (send_chunks b64 offset cw ch pl)) = drop offset b64"
proof (induction b64 offset cw ch pl rule: send_chunks.induct)
  case (1 b64 offset cw ch pl)
  show ?case
  proof (cases "offset < length b64")
    case True
    have "concat (map frame_payload (send_chunks b64 (offset + min 4096 (length b64 - offset)) cw ch pl))
          = drop (offset + min 4096 (length b64 - offset)) b64"
      using True by (intro "1.IH") simp_all
    moreover have "take (min 4096 (length b64 - offset)) (drop offset b64)
          @ drop (offset + min 4096 (length b64 - offset)) b64 = drop offset b64"
      by (metis add.commute append_take_drop_id drop_drop)
    ultimately show ?thesis
      by (simp add: send_chunks_step [OF True])
  next
    case False
    then show ?thesis by (simp add: send_chunks_done)
  qed
qed

lemma send_chunks_sizes:
  "f \<in> set (send_chunks b64 offset cw ch pl) \<Longrightarrow> length (frame_payload f) \<le> 4096"
proof (induction b64 offset cw ch pl rule: send_chunks.induct)
  case (1 b64 offset cw ch pl)
  show ?case
  proof (cases "offset < length b64")
    case True
    have ih: "f \<in> set (send_chunks b64 (offset + min 4096 (length b64 - offset)) cw ch pl)
          \<Longrightarrow> length (frame_payload f) \<le> 4096"
      using True by (intro "1.IH") simp_all
    show ?thesis
      using "1.prems" ih unfolding send_chunks_step [OF True] by (auto split: if_splits)
  next
    case False
    then show ?thesis using "1.prems" by (simp add: send_chunks_done)
  qed
qed

lemma chunk_count_step:
  assumes "offset < n"
  shows "(n - offset + 4095) div 4096 = Suc ((n - (offset + min 4096 (n - offset)) + 4095) div (4096::nat))"
proof (cases "n - offset \<le> 4096")
  case True
  then have "min 4096 (n - offset) = n - offset" by simp
  moreover have "(n - offset + 4095) div 4096 = 1"
  proof -
    have "4096 \<le> n - offset + 4095" "n - offset + 4095 < 2 * 4096" using assms True by simp_all
    then show ?thesis by (simp add: div_nat_eqI)
  qed
  ultimately show ?thesis using assms by simp
next
  case False
  then have m: "min 4096 (n - offset) = 4096" by simp
  have "n - offset + 4095 = (n - (offset + 4096) + 4095) + 4096" using False by simp
  then have "(n - offset + 4095) div 4096 = (n - (offset + 4096) + 4095) div 4096 + 1"
    by (simp only: div_add_self2)
  then show ?thesis by (simp add: m)
qed

lemma send_chunks_length:
  "length (send_chunks b64 offset cw ch pl) = (length b64 - offset + 4095) div 4096"
proof (induction b64 offset cw ch pl rule: send_chunks.induct)
  case (1 b64 offset cw ch pl)
  show ?case
  proof (cases "offset < length b64")
    case True
    have "length (send_chunks b64 (offset + min 4096 (length b64 - offset)) cw ch pl)
          = (length b64 - (offset + min 4096 (length b64 - offset)) + 4095) div 4096"
      using True by (intro "1.IH") simp_all
    then show ?thesis
      by (simp add: send_chunks_step [OF True] chunk_count_step [OF True])
  next
    case False
    then show ?thesis by (simp add: send_chunks_done)
  qed
qed


lemma frame_flag_if:
  "frame_flag (if c then FirstFrame s v cn rn m p else NextFrame m p) = m"
  by simp

lemma send_chunks_flags:
  "offset < length b64 \<Longrightarrow>
   map frame_flag (send_chunks b64 offset cw ch pl) =
     replicate (length (send_chunks b64 offset cw ch pl) - 1) 1 @ [0]"
proof (induction b64 offset cw ch pl rule: send_chunks.induct)
  case (1 b64 offset cw ch pl)
  note lt = "1.prems"
  let ?next = "offset + min 4096 (length b64 - offset)"
  show ?case
  proof (cases "?next \<ge> length b64")
    case True
    then have "send_chunks b64 ?next cw ch pl = []" by (rule send_chunks_done)
    then show ?thesis
      unfolding send_chunks_step [OF lt] using True
      by (simp only: list.map frame_flag_if list.size if_True) simp
  next
    case False
    then have n: "?next < length b64" by simp
    have ih: "map frame_flag (send_chunks b64 ?next cw ch pl) =
        replicate (length (send_chunks b64 ?next cw ch pl) - 1) 1 @ [0]"
      by (rule "1.IH" [OF lt refl refl refl refl refl n])
    have "send_chunks b64 ?next cw ch pl \<noteq> []"
      by (subst send_chunks_step [OF n]) simp
    then have pos: "0 < length (send_chunks b64 ?next cw ch pl)" by simp
    then obtain k where k: "length (send_chunks b64 ?next cw ch pl) = Suc k"
      by (cases "length (send_chunks b64 ?next cw ch pl)") simp_all
    show ?thesis
      unfolding send_chunks_step [OF lt] using False ih
      by (simp only: list.map frame_flag_if list.size if_False k) simp
  qed
qed

lemma send_chunks_later:
  "0 < offset \<Longrightarrow> f \<in> set (send_chunks b64 offset cw ch pl) \<Longrightarrow> \<exists>m p. f = NextFrame m p"
proof (induction b64 offset cw ch pl rule: send_chunks.induct)
  case (1 b64 offset cw ch pl)
  show ?case
  proof (cases "offset < length b64")
    case True
    have ih: "f \<in> set (send_chunks b64 (offset + min 4096 (length b64 - offset)) cw ch pl)
          \<Longrightarrow> \<exists>m p. f = NextFrame m p"
      using True "1.prems"(1) by (intro "1.IH") simp_all
    show ?thesis
      using "1.prems" ih unfolding send_chunks_step [OF True] by auto
  next
    case False
    then show ?thesis using "1.prems" by (simp add: send_chunks_done)
  qed
qed

lemma send_chunks_first:
  assumes "b64 \<noteq> []"
  shows "\<exists>m p rest. send_chunks b64 0 cw ch pl =
           FirstFrame cw ch (cols_needed pl) (rows_needed pl) m p # rest
         \<and> (\<forall>f \<in> set rest. \<exists>m p. f = NextFrame m p)"
proof -
  have lt: "0 < length b64" using assms by simp
  have "\<forall>f \<in> set (send_chunks b64 (0 + min 4096 (length b64 - 0)) cw ch pl). \<exists>m p. f = NextFrame m p"
    using lt send_chunks_later [of "0 + min 4096 (length b64 - 0)" _ b64 cw ch pl] by simp
  then show ?thesis unfolding send_chunks_step [OF lt] by simp
qed

lemma sub32_id: "- (2 ^ 31) \<le> a - b \<Longrightarrow> a - b < 2 ^ 31 \<Longrightarrow> sub32 a b = a - b"
  by (simp add: sub32_def int32_id)

lemma place_ok:
  assumes "0 < cols tsz" "0 < rows tsz" "cols tsz \<le> pixel_width tsz" "rows tsz \<le> pixel_height tsz"
    and "pixel_width tsz < 2 ^ 30" "pixel_height tsz < 2 ^ 30"
    and "0 \<le> cw" "0 \<le> ch" "cw < 2 ^ 30" "ch < 2 ^ 30"
  shows "\<exists>pl. place tsz target_w target_h col_offset cw ch = Inr pl
       \<and> cols_needed pl = \<lceil>real_of_int cw / real_of_int (pixel_width tsz div cols tsz)\<rceil>
       \<and> rows_needed pl = \<lceil>real_of_int ch / real_of_int (pixel_height tsz div rows tsz)\<rceil>"
proof -
  define char_w where "char_w = pixel_width tsz div cols tsz"
  define char_h where "char_h = pixel_height tsz div rows tsz"
  have cwp: "0 < char_w" unfolding char_w_def using assms by (simp add: pos_imp_zdiv_pos_iff)
  have chp: "0 < char_h" unfolding char_h_def using assms by (simp add: pos_imp_zdiv_pos_iff)
  have "char_w \<le> pixel_width tsz" unfolding char_w_def using assms(1,3)
    by (intro int_div_le_self) simp
  then have cwb: "char_w < 1073741824" using assms by simp
  have "char_h \<le> pixel_height tsz" unfolding char_h_def using assms(2,4)
    by (intro int_div_le_self) simp
  then have chb: "char_h < 1073741824" using assms by simp
  have a: "c_div (pixel_width tsz) (cols tsz) = Inr char_w"
    unfolding char_w_def using assms by (intro c_div_nonneg) simp_all
  have b: "c_div (pixel_height tsz) (rows tsz) = Inr char_h"
    unfolding char_h_def using assms by (intro c_div_nonneg) simp_all
  have sw: "sub32 (add32 cw char_w) 1 = cw + char_w - 1"
    using assms(7,9) cwp cwb by (simp add: add32_id sub32_id)
  have sh: "sub32 (add32 ch char_h) 1 = ch + char_h - 1"
    using assms(8,10) chp chb by (simp add: add32_id sub32_id)
  have c: "c_div (cw + char_w - 1) char_w = Inr ((cw + char_w - 1) div char_w)"
    using assms cwp by (intro c_div_nonneg) simp_all
  have d: "c_div (ch + char_h - 1) char_h = Inr ((ch + char_h - 1) div char_h)"
    using assms chp by (intro c_div_nonneg) simp_all
  obtain tc where e: "c_div target_w char_w = Inr tc" using c_div_ok [OF cwp] by blast
  obtain hc where f: "c_div (sub32 tc ((cw + char_w - 1) div char_w)) 2 = Inr hc"
    using c_div_ok [of 2 "sub32 tc ((cw + char_w - 1) div char_w)"] by auto
  obtain tr where g: "c_div target_h char_h = Inr tr" using c_div_ok [OF chp] by blast
  obtain hr where h: "c_div (sub32 tr ((ch + char_h - 1) div char_h)) 2 = Inr hr"
    using c_div_ok [of 2 "sub32 tr ((ch + char_h - 1) div char_h)"] by auto
  have "place tsz target_w target_h col_offset cw ch =
      Inr \<lparr>cols_needed = (cw + char_w - 1) div char_w, rows_needed = (ch + char_h - 1) div char_h,
           col_center = max 0 (add32 col_offset hc), row_center = max 1 (add32 hr 1)\<rparr>"
    unfolding place_def by (simp only: a b sw sh c d e f g h sum.case)
  then show ?thesis
    using round_up_div [OF cwp, of cw] round_up_div [OF chp, of ch]
    by (simp add: char_w_def char_h_def)
qed

text \<open>The base64 text of zero bytes.\<close>

lemma rfc4648_encode_zeros:
  "rfc4648_encode (replicate (3 * n) 0) = replicate (4 * n) CHR ''A''"
proof (induction n)
  case 0
  show ?case by simp
next
  case (Suc n)
  have r: "replicate (3 * Suc n) (0 :: byte) = 0 # 0 # 0 # replicate (3 * n) 0"
    by (simp add: numeral_3_eq_3)
  have a: "rfc4648_alphabet 0 = CHR ''A''" by code_simp
  have q: "replicate (4 * Suc n) CHR ''A'' = CHR ''A'' # CHR ''A'' # CHR ''A'' # CHR ''A'' # replicate (4 * n) CHR ''A''"
    by (simp add: numeral_eq_Suc)
  show ?case unfolding r q by (simp add: a Suc.IH)
qed

lemma base64_encode_zeros:
  "base64_encode (replicate (3 * n) 0) = replicate (4 * n) CHR ''A''"
  by (simp only: base64_encode_eq_rfc rfc4648_encode_zeros)

text \<open>
  The frames on a terminal whose cells are at least one pixel wide and high, for a crop
  whose width and height are not negative: \<open>\<lceil>L / 4096\<rceil>\<close> frames of at most 4096
  characters, the flag 0 on the last one only, and in the header of the first one the
  crop size and the cell counts rounded up.
\<close>

lemma transmit_framing:
  assumes payload: "b64 \<noteq> []"
    and cells: "0 < cols tsz" "0 < rows tsz" "cols tsz \<le> pixel_width tsz"
      "rows tsz \<le> pixel_height tsz"
    and pixels: "pixel_width tsz < 2 ^ 30" "pixel_height tsz < 2 ^ 30"
    and crop: "0 \<le> cw" "0 \<le> ch" "cw < 2 ^ 30" "ch < 2 ^ 30"
  shows "\<exists>(pl :: placement) frames.
           transmit tsz target_w target_h col_offset cw ch b64 =
             Inr (CursorTo (row_center pl) (add32 (col_center pl) 1) # frames)
         \<and> int (length frames) = \<lceil>real (length b64) / 4096\<rceil>
         \<and> (\<forall>f \<in> set frames. length (frame_payload f) \<le> 4096)
         \<and> concat (map frame_payload frames) = b64
         \<and> map frame_flag frames = replicate (length frames - 1) 1 @ [0]
         \<and> (\<exists>m p. hd frames = FirstFrame cw ch (cols_needed pl) (rows_needed pl) m p)
         \<and> (\<forall>f \<in> set (tl frames). \<exists>m p. f = NextFrame m p)
         \<and> cols_needed pl = \<lceil>real_of_int cw / real_of_int (pixel_width tsz div cols tsz)\<rceil>
         \<and> rows_needed pl = \<lceil>real_of_int ch / real_of_int (pixel_height tsz div rows tsz)\<rceil>"
proof -
  obtain pl where pl: "place tsz target_w target_h col_offset cw ch = Inr pl"
    and cn: "cols_needed pl = \<lceil>real_of_int cw / real_of_int (pixel_width tsz div cols tsz)\<rceil>"
    and rn: "rows_needed pl = \<lceil>real_of_int ch / real_of_int (pixel_height tsz div rows tsz)\<rceil>"
    using place_ok [OF cells pixels crop] by blast
  define frames where "frames = send_chunks b64 0 cw ch pl"
  have t: "transmit tsz target_w target_h col_offset cw ch b64 =
             Inr (CursorTo (row_center pl) (add32 (col_center pl) 1) # frames)"
    by (simp add: transmit_def pl frames_def)
  have lt: "0 < length b64" using payload by simp
  have n: "int (length frames) = \<lceil>real (length b64) / 4096\<rceil>"
    unfolding frames_def send_chunks_length by (simp add: round_up_div_nat)
  have sz: "\<forall>f \<in> set frames. length (frame_payload f) \<le> 4096"
    unfolding frames_def using send_chunks_sizes by blast
  have pay: "concat (map frame_payload frames) = b64"
    unfolding frames_def send_chunks_payload by simp
  have fl: "map frame_flag frames = replicate (length frames - 1) 1 @ [0]"
    unfolding frames_def by (rule send_chunks_flags [OF lt])
  obtain m p rest where fr: "frames = FirstFrame cw ch (cols_needed pl) (rows_needed pl) m p # rest"
    and later: "\<forall>f \<in> set rest. \<exists>m p. f = NextFrame m p"
    unfolding frames_def using send_chunks_first [OF payload] by blast
  have hd: "\<exists>m p. hd frames = FirstFrame cw ch (cols_needed pl) (rows_needed pl) m p"
    and tl: "\<forall>f \<in> set (tl frames). \<exists>m p. f = NextFrame m p"
    using later by (simp_all add: fr)
  have "transmit tsz target_w target_h col_offset cw ch b64 =
             Inr (CursorTo (row_center pl) (add32 (col_center pl) 1) # frames)
         \<and> int (length frames) = \<lceil>real (length b64) / 4096\<rceil>
         \<and> (\<forall>f \<in> set frames. length (frame_payload f) \<le> 4096)
         \<and> concat (map frame_payload frames) = b64
         \<and> map frame_flag frames = replicate (length frames - 1) 1 @ [0]
         \<and> (\<exists>m p. hd frames = FirstFrame cw ch (cols_needed pl) (rows_needed pl) m p)
         \<and> (\<forall>f \<in> set (tl frames). \<exists>m p. f = NextFrame m p)
         \<and> cols_needed pl = \<lceil>real_of_int cw / real_of_int (pixel_width tsz div cols tsz)\<rceil>
         \<and> rows_needed pl = \<lceil>real_of_int ch / real_of_int (pixel_height tsz div rows tsz)\<rceil>"
    by (intro conjI) (fact t n sz pay fl hd tl cn rn)+
  then show ?thesis by blast
qed


text \<open>What \<^verbatim>\<open>get_term_size\<close> returns for two terminals that report no pixel size.\<close>

lemma example_terminals:
  "get_term_size \<lparr>ws_row = 4, ws_col = 80, ws_xpixel = 0, ws_ypixel = 0\<rparr> =
     \<lparr>rows = 4, cols = 80, pixel_width = 800, pixel_height = 80\<rparr>"
  "get_term_size \<lparr>ws_row = 0, ws_col = 0, ws_xpixel = 0, ws_ypixel = 0\<rparr> =
     \<lparr>rows = 0, cols = 0, pixel_width = 0, pixel_height = 0\<rparr>"
  by (simp_all add: get_term_size_def mul32_def int32_def)

subsection \<open>The handlers of \<^verbatim>\<open>run\<close>\<close>

text \<open>
  What the Enter key does on a selected archive: on a successful open the view state is
  reset, the reader is viewing, and the page is the saved ordinal unless that is
  \<^verbatim>\<open>page_count\<close> or more (there is no check from below); on a failed open the
  reader stays in the browser.
\<close>

lemma browse_enter_archive:
  assumes sel: "selected_idx st = int i" "i < length (file_entries st)"
    and isfile: "\<not> is_directory (file_entries st ! i)"
    and opened: "ar_open (archives w) (archive st) (full_path (file_entries st ! i)) = Inr (a, ok)"
  shows "ok \<longrightarrow> (\<exists>st'. browse_enter w st = Inr (st', DrawComicView)
            \<and> viewing_comic st' \<and> zoom_level st' = 1 \<and> pan_x st' = 0 \<and> pan_y st' = 0
            \<and> archive st' = a
            \<and> current_page st' =
                (case progress st (file_name (file_entries st ! i)) of
                   Some saved \<Rightarrow> if saved \<ge> int (page_count a) then 0 else saved
                 | None \<Rightarrow> 0))"
    and "\<not> ok \<longrightarrow> (\<exists>st'. browse_enter w st = Inr (st', OpenFailed)
            \<and> viewing_comic st' = viewing_comic st)"
  using assms by (auto simp: browse_enter_def Let_def split: option.splits)

text \<open>The page after a key of the comic view.\<close>

lemma view_key_plain:
  assumes "c \<noteq> CHR 0x1b"
  shows "view_key st c inp =
     (let cfg = config st;
          step = page_step st;
          count = int (page_count (archive st));
          cur = current_page st
      in if c = key_of cfg ''next'' \<and> cur + step < count
           then (st\<lparr>current_page := cur + step\<rparr>, DrawComicView, inp)
         else if c = key_of cfg ''prev'' \<and> cur > 0
           then (st\<lparr>current_page := max 0 (cur - step)\<rparr>, DrawComicView, inp)
         else if c = key_of cfg ''first_page''
           then (st\<lparr>current_page := 0\<rparr>, DrawComicView, inp)
         else if c = key_of cfg ''last_page''
           then (st\<lparr>current_page := count - 1\<rparr>, DrawComicView, inp)
         else if c = key_of cfg ''toggle_spread'' \<or> c = key_of cfg ''double_page''
           then (st\<lparr>config := cfg\<lparr>double_page := \<not> double_page cfg\<rparr>\<rparr>, DrawComicView, inp)
         else if c = key_of cfg ''toggle_help''
           then (st\<lparr>config := cfg\<lparr>show_help := \<not> show_help cfg\<rparr>\<rparr>, DrawComicView, inp)
         else if c = key_of cfg ''quit''
           then (leave_view st, DrawFileList, inp)
         else if c = key_of cfg ''zoom_in''
           then (st\<lparr>zoom_level := min (zoom_level st + 0.1) 3\<rparr>, DrawComicView, inp)
         else if c = key_of cfg ''zoom_out'' \<or> c = key_of cfg ''zoom_out_alt''
           then (st\<lparr>zoom_level := max (zoom_level st - 0.1) 0.5\<rparr>, DrawComicView, inp)
         else if c = key_of cfg ''zoom_reset''
           then (st\<lparr>zoom_level := 1, pan_x := 0, pan_y := 0\<rparr>, DrawComicView, inp)
         else if c = key_of cfg ''pan_up'' then redraw_if (do_pan (CHR ''K'') st) inp
         else if c = key_of cfg ''pan_down'' then redraw_if (do_pan (CHR ''J'') st) inp
         else if c = key_of cfg ''pan_left'' then redraw_if (do_pan (CHR ''H'') st) inp
         else if c = key_of cfg ''pan_right'' then redraw_if (do_pan (CHR ''L'') st) inp
         else (st, NoRedraw, inp))"
  unfolding view_key_def using assms by (simp only: if_False)

lemma do_pan_page: "current_page (fst (do_pan d st)) = current_page st"
  by (simp add: do_pan_def)

lemma view_key_next:
  assumes "c \<noteq> CHR 0x1b" and "c = key_of (config st) ''next''"
    and "c \<noteq> key_of (config st) ''prev''" "c \<noteq> key_of (config st) ''first_page''"
      "c \<noteq> key_of (config st) ''last_page''"
  shows "current_page (fst (view_key st c inp)) =
     (if current_page st + page_step st < int (page_count (archive st))
      then current_page st + page_step st else current_page st)"
  unfolding view_key_plain [OF assms(1)] using assms(2-)
  by (simp add: Let_def leave_view_def redraw_if_def do_pan_page)

lemma view_key_prev:
  assumes "c \<noteq> CHR 0x1b" and "c = key_of (config st) ''prev''"
    and "c \<noteq> key_of (config st) ''next''" "c \<noteq> key_of (config st) ''first_page''"
      "c \<noteq> key_of (config st) ''last_page''"
  shows "current_page (fst (view_key st c inp)) =
     (if current_page st > 0
      then max 0 (current_page st - page_step st) else current_page st)"
  unfolding view_key_plain [OF assms(1)] using assms(2-)
  by (simp add: Let_def leave_view_def redraw_if_def do_pan_page)

lemma view_key_arrows:
  "current_page (fst (view_key st (CHR 0x1b) (CHR ''['' # CHR ''C'' # inp))) =
     (if current_page st + page_step st < int (page_count (archive st))
      then current_page st + page_step st else current_page st)"
  "current_page (fst (view_key st (CHR 0x1b) (CHR ''['' # CHR ''D'' # inp))) =
     (if current_page st > 0
      then max 0 (current_page st - page_step st) else current_page st)"
  by (simp_all add: view_key_def Let_def)

text \<open>
  The page after the keys and the arrows that turn pages, for every state: the step, the
  guard of the forward move, the floor of the backward move.
\<close>

lemma view_key_page:
  "page_step st = (if double_page (config st) then 2 else 1)
   \<and> (c \<noteq> CHR 0x1b \<and> c = key_of (config st) ''next'' \<and> c \<noteq> key_of (config st) ''prev''
        \<and> c \<noteq> key_of (config st) ''first_page'' \<and> c \<noteq> key_of (config st) ''last_page''
      \<longrightarrow> current_page (fst (view_key st c inp)) =
            (if current_page st + page_step st < int (page_count (archive st))
             then current_page st + page_step st else current_page st))
   \<and> (c \<noteq> CHR 0x1b \<and> c = key_of (config st) ''prev'' \<and> c \<noteq> key_of (config st) ''next''
        \<and> c \<noteq> key_of (config st) ''first_page'' \<and> c \<noteq> key_of (config st) ''last_page''
      \<longrightarrow> current_page (fst (view_key st c inp)) =
            (if current_page st > 0 then max 0 (current_page st - page_step st)
             else current_page st))
   \<and> current_page (fst (view_key st (CHR 0x1b) (CHR ''['' # CHR ''C'' # inp))) =
         (if current_page st + page_step st < int (page_count (archive st))
          then current_page st + page_step st else current_page st)
   \<and> current_page (fst (view_key st (CHR 0x1b) (CHR ''['' # CHR ''D'' # inp))) =
         (if current_page st > 0 then max 0 (current_page st - page_step st)
          else current_page st)
   \<and> (0 \<le> current_page st \<and> current_page st < int (page_count (archive st))
      \<longrightarrow> 0 \<le> (if current_page st + page_step st < int (page_count (archive st))
                 then current_page st + page_step st else current_page st)
          \<and> (if current_page st + page_step st < int (page_count (archive st))
              then current_page st + page_step st else current_page st)
              < int (page_count (archive st))
          \<and> 0 \<le> (if current_page st > 0 then max 0 (current_page st - page_step st)
                   else current_page st)
          \<and> (if current_page st > 0 then max 0 (current_page st - page_step st)
              else current_page st) < int (page_count (archive st)))"
proof -
  have step: "page_step st = (if double_page (config st) then 2 else 1)"
    by (simp add: page_step_def)
  then have pos: "0 < page_step st" by simp
  have range: "0 \<le> current_page st \<and> current_page st < int (page_count (archive st))
      \<longrightarrow> 0 \<le> (if current_page st + page_step st < int (page_count (archive st))
                 then current_page st + page_step st else current_page st)
          \<and> (if current_page st + page_step st < int (page_count (archive st))
              then current_page st + page_step st else current_page st)
              < int (page_count (archive st))
          \<and> 0 \<le> (if current_page st > 0 then max 0 (current_page st - page_step st)
                   else current_page st)
          \<and> (if current_page st > 0 then max 0 (current_page st - page_step st)
              else current_page st) < int (page_count (archive st))"
    using pos by auto
  show ?thesis
    using step range view_key_next [of c st inp] view_key_prev [of c st inp]
      view_key_arrows [of st inp]
    by blast
qed

text \<open>
  Where the double-page flag agrees with the condition under which a spread is drawn and
  the ordinal is in range, the moves of the code are the moves of the specification,
  but for the forward move that would pass the last page.
\<close>

lemma spec_moves:
  assumes "double_page (config st) = spread_eligible st"
    and "0 \<le> current_page st" "current_page st < int (page_count (archive st))"
  shows "page_step st = spec_step st"
    and "(if current_page st > 0 then max 0 (current_page st - page_step st) else current_page st)
         = spec_prev_page st"
    and "(if current_page st + page_step st < int (page_count (archive st))
          then current_page st + page_step st else current_page st)
         = (if current_page st + spec_step st < int (page_count (archive st))
            then spec_next_page st else current_page st)"
proof -
  show s: "page_step st = spec_step st" using assms(1) by (simp add: page_step_def spec_step_def)
  have pos: "0 < spec_step st" by (simp add: spec_step_def)
  show "(if current_page st > 0 then max 0 (current_page st - page_step st) else current_page st)
         = spec_prev_page st"
    unfolding s spec_prev_page_def using assms(2,3) pos by auto
  show "(if current_page st + page_step st < int (page_count (archive st))
          then current_page st + page_step st else current_page st)
         = (if current_page st + spec_step st < int (page_count (archive st))
            then spec_next_page st else current_page st)"
    unfolding s spec_next_page_def using assms(2,3) pos by auto
qed

text \<open>
  Where the flag is set and no spread is drawn the step is 2 all the same. On the example
  archive with the ASCII renderer \<^verbatim>\<open>draw_comic_view\<close> draws the page of ordinal 0
  alone, and the key \<^verbatim>\<open>next\<close> moves to ordinal 2: the page of ordinal 1 is passed
  over.
\<close>

lemma view_key_skips_undrawn_page:
  "\<not> effective_double (example_reader\<lparr>config :=
       default_config\<lparr>double_page := True, render_mode := ASCII\<rparr>\<rparr>)
   \<and> drawn_pages (example_reader\<lparr>config :=
       default_config\<lparr>double_page := True, render_mode := ASCII\<rparr>\<rparr>) = [0]
   \<and> current_page (fst (view_key (example_reader\<lparr>config :=
       default_config\<lparr>double_page := True, render_mode := ASCII\<rparr>\<rparr>) (CHR ''l'') [])) = 2"
  by (simp add: effective_double_def drawn_pages_def view_key_def page_step_def
      key_of_def default_config_def default_keymap_def example_reader_def new_comic_reader_def
      page_count_def example_session_def Let_def leave_view_def redraw_if_def do_pan_def
      zoomed_def)

text \<open>
  Claim C1. For every archive with fewer than \<open>2\<^sup>3\<^sup>1\<close> entries (the range of the
  \<^verbatim>\<open>int\<close> cursor) whose payloads are well-formed and which holds at least 6 pages:
  on the session that \<^verbatim>\<open>open\<close> returns, \<^verbatim>\<open>read_page(5)\<close> followed by
  \<^verbatim>\<open>read_page(1)\<close> returns for ordinal 1 the bytes that \<^verbatim>\<open>read_page(1)\<close> returns on
  the freshly opened session, and these are the payload of the entry that ordinal 1
  names.
\<close>

theorem read_page_after_rewind:
  assumes fs: "fs path = Some file"
    and small: "length file < 2 ^ 31"
    and wf: "well_formed file"
    and opened: "ar_open fs s0 path = Inr (s, ok)"
    and pages: "6 \<le> page_count s"
  shows "snd (read_page fs (fst (read_page fs s 5)) 1) = snd (read_page fs s 1)
       \<and> entry_data (file ! index_in_archive (entries s ! 1)) = Some (snd (read_page fs s 1))"
proof -
  note o = ar_open_inv [OF fs opened]
  have oh: "open_handle fs (archive_path s) = file" by (simp add: o(3) open_handle_def fs)
  have p5: "5 < length (entries s)" and p1: "1 < length (entries s)"
    using pages by (simp_all add: page_count_def)
  have sm: "length (open_handle fs (archive_path s)) < 2 ^ 31" using small oh by simp
  define t5 where "t5 = index_in_archive (entries s ! 5)"
  define t1 where "t1 = index_in_archive (entries s ! 1)"
  have d: "distinct (map index_in_archive (entries s))"
    using o(1) by (simp add: reader_inv_def Let_def)
  have "map index_in_archive (entries s) ! 5 \<noteq> map index_in_archive (entries s) ! 1"
    using d p5 p1 by (simp add: nth_eq_iff_index_eq del: nth_map)
  then have ne: "t5 \<noteq> t1" using p5 p1 by (simp add: t5_def t1_def)
  have t1: "t1 < length file"
    using o(1) p1 oh by (simp add: reader_inv_def Let_def t1_def)
  have n5: "current_entry s \<noteq> int (index_in_archive (entries s ! 5))"
    and n1: "current_entry s \<noteq> int (index_in_archive (entries s ! 1))"
    by (simp_all add: o(2))
  define s1 where "s1 = fst (read_page fs s 5)"
  note f5 = read_page_found [OF o(1) p5 sm n5, folded s1_def t5_def]
  have inv1: "reader_inv fs s1"
    unfolding s1_def by (rule read_page_found_inv [OF o(1) p5 sm n5])
  have p1': "1 < length (entries s1)" using p1 by (simp add: f5(4))
  have sm1: "length (open_handle fs (archive_path s1)) < 2 ^ 31" using sm by (simp add: f5(5))
  have n1': "current_entry s1 \<noteq> int (index_in_archive (entries s1 ! 1))"
    using ne by (simp add: f5(2) f5(4) t1_def)
  have a: "snd (read_page fs s1 1) = read_entry (file ! t1)"
    using read_page_found(1) [OF inv1 p1' sm1 n1'] by (simp add: f5(4) f5(5) oh t1_def)
  have b: "snd (read_page fs s 1) = read_entry (file ! t1)"
    using read_page_found(1) [OF o(1) p1 sm n1] by (simp add: oh t1_def)
  show ?thesis
    using a b read_entry_well_formed [OF wf t1] by (simp add: s1_def t1_def)
qed

text \<open>The theorem on the example archive: ordinal 5 is the last entry of the stream, ordinal 1 the first, so the second call rewinds.\<close>

theorem read_page_after_rewind_witness:
  "snd (read_page example_fs (fst (read_page example_fs example_session 5)) 1) = [2]
   \<and> snd (read_page example_fs example_session 1) = [2]
   \<and> entry_data (example_archive ! 0) = Some [2]"
proof -
  have fs: "example_fs ''a.cbz'' = Some example_archive" by (simp add: example_fs_def)
  have small: "length example_archive < 2 ^ 31" by (simp add: example_archive_def)
  have pages: "6 \<le> page_count example_session"
    by (simp add: page_count_def example_session_def)
  have r1: "snd (read_page example_fs example_session 1) = [2]"
    by (simp only: example_read_1 snd_conv)
  have "snd (read_page example_fs (fst (read_page example_fs example_session 5)) 1) =
        snd (read_page example_fs example_session 1)"
    using read_page_after_rewind [OF fs small example_well_formed example_open pages]
    by (rule conjunct1)
  moreover have "entry_data (example_archive ! 0) = Some [2]"
    by (simp add: example_archive_def)
  ultimately show ?thesis by (simp only: r1 simp_thms)
qed

text \<open>
  Claim C2. Let the scaled size and the target size be below \<open>2\<^sup>3\<^sup>0\<close> in absolute
  value on each axis and let the size \<open>new_w * new_h * 3\<close> of the scaled buffer be an
  \<^verbatim>\<open>int\<close>. For every such scaled image (whatever image, terminal and zoom factor in
  \<open>[0.5, 3.0]\<close> produced it) and every requested pan, each pan axis is clamped into
  \<open>[-max_pan, 0]\<close> with \<open>max_pan = max 0 (scaled - target)\<close>; the crop rectangle with
  origin \<open>(|pan_x|, |pan_y|)\<close> and size \<open>min (scaled_w - |pan_x|) target_w\<close> by
  \<open>min (scaled_h - |pan_y|) target_h\<close> lies within the scaled image on both axes; every
  position the copy loop reads lies inside the scaled pixel buffer; and the loop ends
  without an access out of bounds: where the crop has a positive width and height the
  vector \<^verbatim>\<open>cropped\<close> holds the bytes read, in the order of the loop, and elsewhere the
  loop does not run and the vector is as its constructor left it.
\<close>

theorem crop_within_scaled_image:
  assumes c: "c = crop_region new_w new_h target_w target_h px py"
    and sizes: "int_sizes new_w new_h target_w target_h"
  shows "- max 0 (new_w - target_w) \<le> clamped_pan_x c \<and> clamped_pan_x c \<le> 0
       \<and> - max 0 (new_h - target_h) \<le> clamped_pan_y c \<and> clamped_pan_y c \<le> 0
       \<and> crop_x c = \<bar>clamped_pan_x c\<bar> \<and> crop_y c = \<bar>clamped_pan_y c\<bar>
       \<and> crop_w c = min (new_w - crop_x c) target_w \<and> crop_h c = min (new_h - crop_y c) target_h
       \<and> 0 \<le> crop_x c \<and> crop_x c + crop_w c \<le> new_w
       \<and> 0 \<le> crop_y c \<and> crop_y c + crop_h c \<le> new_h
       \<and> buffer_size new_w new_h = new_w * new_h * 3
       \<and> (\<forall>i \<in> set (copy_reads new_w c). 0 \<le> i \<and> i < buffer_size new_w new_h)
       \<and> (int (length resized) = buffer_size new_w new_h \<longrightarrow>
            crop_pixels resized new_w c =
              (if 0 < crop_w c \<and> 0 < crop_h c
               then Inr (map (\<lambda>i. resized ! nat i) (copy_reads new_w c))
               else vector_of_size (buffer_size (crop_w c) (crop_h c))))"
proof -
  from sizes have sz: "\<bar>new_w\<bar> < 2 ^ 30" "\<bar>new_h\<bar> < 2 ^ 30" "\<bar>target_w\<bar> < 2 ^ 30"
    "\<bar>target_h\<bar> < 2 ^ 30" and area: "\<bar>new_w * new_h * 3\<bar> < 2 ^ 31"
    by (simp_all add: int_sizes_def)
  note b = crop_region_bounds [OF sz, of px py, folded c]
  note inside = b(7) b(8) b(9) b(10)
  have bs: "buffer_size new_w new_h = new_w * new_h * 3"
    by (rule buffer_size_exact [OF area])
  have reads: "\<forall>i \<in> set (copy_reads new_w c). 0 \<le> i \<and> i < buffer_size new_w new_h"
  proof
    fix i assume "i \<in> set (copy_reads new_w c)"
    then obtain yx where yx: "yx \<in> set (loop_cells c)"
      and i: "i = add32 (src_idx new_w c (snd yx) (fst yx)) 0
            \<or> i = add32 (src_idx new_w c (snd yx) (fst yx)) 1
            \<or> i = add32 (src_idx new_w c (snd yx) (fst yx)) 2"
      by (auto simp: copy_reads_def)
    then obtain k :: int where k: "0 \<le> k" "k \<le> 2"
      and ik: "i = add32 (src_idx new_w c (snd yx) (fst yx)) k"
      by (metis order_refl zero_le_one one_le_numeral zero_le_numeral)
    note e = src_idx_exact [OF inside sz(1) sz(2) area yx k]
    show "0 \<le> i \<and> i < buffer_size new_w new_h"
      unfolding ik e(2) bs using e(3) e(4) by simp
  qed
  have pixels: "int (length resized) = buffer_size new_w new_h \<longrightarrow>
            crop_pixels resized new_w c =
              (if 0 < crop_w c \<and> 0 < crop_h c
               then Inr (map (\<lambda>i. resized ! nat i) (copy_reads new_w c))
               else vector_of_size (buffer_size (crop_w c) (crop_h c)))"
    unfolding bs using crop_pixels_exact [OF inside sz(1) sz(2) area] by blast
  have "crop_x c = \<bar>clamped_pan_x c\<bar>" "crop_y c = \<bar>clamped_pan_y c\<bar>"
    using b(2) b(4) b(5) b(6) by simp_all
  then show ?thesis using b bs reads pixels by blast
qed

text \<open>
  The theorem on a 30 by 40 scaled image in a 20 by 15 target with the requested pan
  \<open>(-50, 3)\<close>: the pan becomes \<open>(-10, 0)\<close>, the loop makes 900 reads and
  \<^verbatim>\<open>cropped\<close> has 900 bytes. And on the scaled size \<open>-37\<close> by \<open>-50\<close> that a target
  height of \<open>-50\<close> gives: the crop is \<open>-37\<close> by \<open>-50\<close>, the loop does not run and
  \<^verbatim>\<open>cropped\<close> holds 5550 zero bytes.
\<close>

theorem crop_within_scaled_image_witness:
  "crop_region 30 40 20 15 (- 50) 3 =
     \<lparr>clamped_pan_x = - 10, clamped_pan_y = 0, crop_x = 10, crop_y = 0,
      crop_w = 20, crop_h = 15\<rparr>
   \<and> crop_x (crop_region 30 40 20 15 (- 50) 3)
       + crop_w (crop_region 30 40 20 15 (- 50) 3) \<le> 30
   \<and> crop_y (crop_region 30 40 20 15 (- 50) 3)
       + crop_h (crop_region 30 40 20 15 (- 50) 3) \<le> 40
   \<and> length (copy_reads 30 (crop_region 30 40 20 15 (- 50) 3)) = 900
   \<and> (\<exists>cropped. crop_pixels (replicate 3600 0) 30 (crop_region 30 40 20 15 (- 50) 3) = Inr cropped
         \<and> length cropped = 900)
   \<and> crop_region (- 37) (- 50) 800 (- 50) 0 0 =
     \<lparr>clamped_pan_x = 0, clamped_pan_y = 0, crop_x = 0, crop_y = 0,
      crop_w = - 37, crop_h = - 50\<rparr>
   \<and> crop_pixels (replicate 5550 0) (- 37) (crop_region (- 37) (- 50) 800 (- 50) 0 0) =
       Inr (replicate 5550 0)"
proof -
  define c where "c = crop_region 30 40 20 15 (- 50) 3"
  have s: "int_sizes 30 40 20 15" by (simp add: int_sizes_def)
  have v: "c = \<lparr>clamped_pan_x = - 10, clamped_pan_y = 0, crop_x = 10, crop_y = 0,
      crop_w = 20, crop_h = 15\<rparr>"
    by (simp add: c_def crop_region_exact clamp_def)
  have n: "length (copy_reads 30 c) = 900"
    by (simp add: copy_reads_length loop_cells_length v)
  note t = crop_within_scaled_image [OF c_def s, of "replicate 3600 0"]
  from t have in_w: "crop_x c + crop_w c \<le> 30" and in_h: "crop_y c + crop_h c \<le> 40" by blast+
  from t have "buffer_size 30 40 = 30 * 40 * 3" by blast
  with t have "crop_pixels (replicate 3600 0) 30 c =
      (if 0 < crop_w c \<and> 0 < crop_h c
       then Inr (map (\<lambda>i. replicate 3600 0 ! nat i) (copy_reads 30 c))
       else vector_of_size (buffer_size (crop_w c) (crop_h c)))" by simp
  then have "crop_pixels (replicate 3600 0) 30 c =
      Inr (map (\<lambda>i. replicate 3600 0 ! nat i) (copy_reads 30 c))"
    by (simp add: v)
  then have p: "\<exists>cropped. crop_pixels (replicate 3600 0) 30 c = Inr cropped \<and> length cropped = 900"
    using n by (simp)
  define d where "d = crop_region (- 37) (- 50) 800 (- 50) 0 0"
  have s': "int_sizes (- 37) (- 50) 800 (- 50)" by (simp add: int_sizes_def)
  have v': "d = \<lparr>clamped_pan_x = 0, clamped_pan_y = 0, crop_x = 0, crop_y = 0,
      crop_w = - 37, crop_h = - 50\<rparr>"
    by (simp add: d_def crop_region_exact clamp_def)
  note t' = crop_within_scaled_image [OF d_def s', of "replicate 5550 0"]
  from t' have "buffer_size (- 37) (- 50) = (- 37) * (- 50) * 3" by blast
  with t' have "crop_pixels (replicate 5550 0) (- 37) d =
      (if 0 < crop_w d \<and> 0 < crop_h d
       then Inr (map (\<lambda>i. replicate 5550 0 ! nat i) (copy_reads (- 37) d))
       else vector_of_size (buffer_size (crop_w d) (crop_h d)))" by simp
  then have q: "crop_pixels (replicate 5550 0) (- 37) d = Inr (replicate 5550 0)"
    by (simp add: v' vector_of_size_def buffer_size_def mul32_def int32_def
       )
  from v n in_w in_h p v' q show ?thesis unfolding c_def d_def by blast
qed

text \<open>
  Claim C3. Start from an empty cache and request the ordinals 0, 1, 2, 3, 4 in this
  order through \<^verbatim>\<open>load_page\<close>, every call returning non-empty bytes. After each
  request the cache holds at most 5 entries, holds no ordinal at distance above 2 from
  the ordinal just requested, and holds the bytes just returned under that ordinal.
  In every state, a miss whose read returns non-empty bytes stores them under the
  requested ordinal, erases every ordinal at distance above 2 and keeps the others.
\<close>

theorem cache_window_on_sequence:
  assumes empty: "page_cache st = Map.empty"
    and loads: "\<forall>r \<in> set (load_pages fs st [0, 1, 2, 3, 4]). snd r \<noteq> []"
  shows "(\<forall>i < 5.
            card (dom (page_cache (fst (load_pages fs st [0, 1, 2, 3, 4] ! i)))) \<le> 5
          \<and> (\<forall>k \<in> dom (page_cache (fst (load_pages fs st [0, 1, 2, 3, 4] ! i))).
                \<bar>k - int i\<bar> \<le> 2)
          \<and> page_cache (fst (load_pages fs st [0, 1, 2, 3, 4] ! i)) (int i) =
              Some (snd (load_pages fs st [0, 1, 2, 3, 4] ! i)))
       \<and> (\<forall>st' p. page_cache st' p = None \<and> snd (load_page fs st' p) \<noteq> [] \<longrightarrow>
              page_cache (fst (load_page fs st' p)) p = Some (snd (load_page fs st' p))
            \<and> (\<forall>k. \<bar>k - p\<bar> > 2 \<longrightarrow> page_cache (fst (load_page fs st' p)) k = None)
            \<and> (\<forall>k. k \<noteq> p \<and> \<bar>k - p\<bar> \<le> 2 \<longrightarrow>
                   page_cache (fst (load_page fs st' p)) k = page_cache st' k))"
proof -
  define r0 where "r0 = load_page fs st 0"
  define r1 where "r1 = load_page fs (fst r0) 1"
  define r2 where "r2 = load_page fs (fst r1) 2"
  define r3 where "r3 = load_page fs (fst r2) 3"
  define r4 where "r4 = load_page fs (fst r3) 4"
  have tr: "load_pages fs st [0, 1, 2, 3, 4] = [r0, r1, r2, r3, r4]"
    by (simp only: load_pages_Cons load_pages.simps r0_def r1_def r2_def r3_def r4_def)
  have ne: "snd r0 \<noteq> []" "snd r1 \<noteq> []" "snd r2 \<noteq> []" "snd r3 \<noteq> []" "snd r4 \<noteq> []"
    using loads unfolding tr by simp_all
  have m0: "page_cache st 0 = None" by (simp add: empty)
  have d0: "dom (page_cache (fst r0)) = {0}"
    unfolding r0_def using load_page_miss_dom [OF m0 ne(1) [unfolded r0_def]] by (simp add: empty)
  have m1: "page_cache (fst r0) 1 = None" by (rule outside_dom [OF d0]) simp
  have d1: "dom (page_cache (fst r1)) = {0, 1}"
    unfolding r1_def using load_page_miss_dom [OF m1 ne(2) [unfolded r1_def]] d0 by auto
  have m2: "page_cache (fst r1) 2 = None" by (rule outside_dom [OF d1]) simp
  have d2: "dom (page_cache (fst r2)) = {0, 1, 2}"
    unfolding r2_def using load_page_miss_dom [OF m2 ne(3) [unfolded r2_def]] d1 by auto
  have m3: "page_cache (fst r2) 3 = None" by (rule outside_dom [OF d2]) simp
  have d3: "dom (page_cache (fst r3)) = {1, 2, 3}"
    unfolding r3_def using load_page_miss_dom [OF m3 ne(4) [unfolded r3_def]] d2 by auto
  have m4: "page_cache (fst r3) 4 = None" by (rule outside_dom [OF d3]) simp
  have d4: "dom (page_cache (fst r4)) = {2, 3, 4}"
    unfolding r4_def using load_page_miss_dom [OF m4 ne(5) [unfolded r4_def]] d3 by auto
  have e0: "page_cache (fst r0) 0 = Some (snd r0)"
    unfolding r0_def by (rule load_page_miss_entry [OF m0 ne(1) [unfolded r0_def]])
  have e1: "page_cache (fst r1) 1 = Some (snd r1)"
    unfolding r1_def by (rule load_page_miss_entry [OF m1 ne(2) [unfolded r1_def]])
  have e2: "page_cache (fst r2) 2 = Some (snd r2)"
    unfolding r2_def by (rule load_page_miss_entry [OF m2 ne(3) [unfolded r2_def]])
  have e3: "page_cache (fst r3) 3 = Some (snd r3)"
    unfolding r3_def by (rule load_page_miss_entry [OF m3 ne(4) [unfolded r3_def]])
  have e4: "page_cache (fst r4) 4 = Some (snd r4)"
    unfolding r4_def by (rule load_page_miss_entry [OF m4 ne(5) [unfolded r4_def]])
  have seq: "\<forall>i < 5.
            card (dom (page_cache (fst ([r0, r1, r2, r3, r4] ! i)))) \<le> 5
          \<and> (\<forall>k \<in> dom (page_cache (fst ([r0, r1, r2, r3, r4] ! i))). \<bar>k - int i\<bar> \<le> 2)
          \<and> page_cache (fst ([r0, r1, r2, r3, r4] ! i)) (int i) =
              Some (snd ([r0, r1, r2, r3, r4] ! i))"
    unfolding less5 using d0 d1 d2 d3 d4 e0 e1 e2 e3 e4 by auto
  have miss: "page_cache (fst (load_page fs st' p)) p = Some (snd (load_page fs st' p))
            \<and> (\<forall>k. \<bar>k - p\<bar> > 2 \<longrightarrow> page_cache (fst (load_page fs st' p)) k = None)
            \<and> (\<forall>k. k \<noteq> p \<and> \<bar>k - p\<bar> \<le> 2 \<longrightarrow>
                   page_cache (fst (load_page fs st' p)) k = page_cache st' k)"
    if "page_cache st' p = None" "snd (load_page fs st' p) \<noteq> []" for st' p
    unfolding load_page_miss [OF that] by auto
  show ?thesis unfolding tr using seq miss by blast
qed

text \<open>
  The theorem on the example reader: the five loads return the payloads of the pages;
  after the request of ordinal 4 the cache holds it and no longer holds ordinal 1.
\<close>

theorem cache_window_on_sequence_witness:
  "map snd (load_pages example_fs example_reader [0, 1, 2, 3, 4]) = [[1], [2], [3], [4], [5]]
   \<and> page_cache (fst (load_pages example_fs example_reader [0, 1, 2, 3, 4] ! 4)) 4 = Some [5]
   \<and> page_cache (fst (load_pages example_fs example_reader [0, 1, 2, 3, 4] ! 4)) 1 = None
   \<and> card (dom (page_cache (fst (load_pages example_fs example_reader [0, 1, 2, 3, 4] ! 4)))) \<le> 5"
proof -
  define tr where "tr = load_pages example_fs example_reader [0, 1, 2, 3, 4]"
  have vals: "map snd tr = [[1], [2], [3], [4], [5]]" unfolding tr_def by (rule example_loads)
  have empty: "page_cache example_reader = Map.empty"
    by (simp add: example_reader_def new_comic_reader_def)
  have "\<forall>d \<in> set (map snd tr). d \<noteq> []" unfolding vals by simp
  then have loads: "\<forall>r \<in> set tr. snd r \<noteq> []" by simp
  have "\<forall>i < 5. card (dom (page_cache (fst (tr ! i)))) \<le> 5
          \<and> (\<forall>k \<in> dom (page_cache (fst (tr ! i))). \<bar>k - int i\<bar> \<le> 2)
          \<and> page_cache (fst (tr ! i)) (int i) = Some (snd (tr ! i))"
    using cache_window_on_sequence [OF empty loads [unfolded tr_def]]
    unfolding tr_def by (rule conjunct1)
  then have "card (dom (page_cache (fst (tr ! 4)))) \<le> 5
          \<and> (\<forall>k \<in> dom (page_cache (fst (tr ! 4))). \<bar>k - int 4\<bar> \<le> 2)
          \<and> page_cache (fst (tr ! 4)) (int 4) = Some (snd (tr ! 4))"
    by (elim allE [of _ 4]) simp
  then have a: "card (dom (page_cache (fst (tr ! 4)))) \<le> 5"
    and b: "\<forall>k \<in> dom (page_cache (fst (tr ! 4))). \<bar>k - 4\<bar> \<le> 2"
    and c: "page_cache (fst (tr ! 4)) 4 = Some (snd (tr ! 4))"
    by simp_all
  have l: "length tr = 5" using arg_cong [OF vals, of length] by simp
  have "map snd tr ! 4 = snd (tr ! 4)" using l by (simp add: nth_map)
  then have s4: "snd (tr ! 4) = [5]" unfolding vals by simp
  have "(1::int) \<notin> dom (page_cache (fst (tr ! 4)))"
  proof
    assume "1 \<in> dom (page_cache (fst (tr ! 4)))"
    with b have "\<bar>(1::int) - 4\<bar> \<le> 2" by (rule bspec)
    then show False by simp
  qed
  then have "page_cache (fst (tr ! 4)) 1 = None" by (simp add: domIff)
  with a c s4 vals show ?thesis unfolding tr_def by simp
qed

text \<open>
  Claim C4, at two inputs where the code leaves it.

  A terminal of 4 rows and 80 columns that reports no pixel size is taken as 800 by 80
  pixels, cells of 10 by 20, and the target height is \<open>80 - 100 = -20\<close>. An image of
  1 by 2 pixels at zoom 1 has the scale \<open>min (800 / 1) (-20 / 2) = -10\<close> and the scaled
  size \<open>-10\<close> by \<open>-20\<close>. The crop is \<open>-10\<close> by \<open>-20\<close>, \<^verbatim>\<open>cropped\<close> holds 600
  zero bytes, and the one frame that is written has the header \<^verbatim>\<open>s=-10,v=-20,c=0,r=0\<close>:
  both cell counts are 0, where the crop dimensions divided by the cell size and rounded
  up are \<open>-1\<close> and \<open>-1\<close>.

  A terminal that reports 0 rows and 0 columns is taken as 0 by 0 pixels. An image of
  1 by 1 pixel at zoom 1 has the scaled size \<open>-100\<close> by \<open>-100\<close>; \<^verbatim>\<open>cropped\<close> holds
  30000 zero bytes, whose base64 text has 40000 characters, and the division
  \<^verbatim>\<open>term.pixel_width / term.cols\<close> traps before anything is written, where the claim
  has \<open>\<lceil>40000 / 4096\<rceil> = 10\<close> frames.
\<close>

theorem kitty_header_small_terminal:
  "render_kitty_scaled (get_term_size \<lparr>ws_row = 4, ws_col = 80, ws_xpixel = 0, ws_ypixel = 0\<rparr>)
       0 0 (- 10) (- 20) 0 0 (replicate 600 0) =
     Inr (\<lparr>clamped_pan_x = 0, clamped_pan_y = 0, crop_x = 0, crop_y = 0,
           crop_w = - 10, crop_h = - 20\<rparr>,
          [CursorTo 1 41, FirstFrame (- 10) (- 20) 0 0 0 (replicate 800 CHR ''A'')])
   \<and> \<lceil>real_of_int (- 10) / real_of_int (800 div 80)\<rceil> = - 1
   \<and> \<lceil>real_of_int (- 20) / real_of_int (80 div 4)\<rceil> = - 1
   \<and> render_kitty_scaled (get_term_size \<lparr>ws_row = 0, ws_col = 0, ws_xpixel = 0, ws_ypixel = 0\<rparr>)
       0 0 (- 100) (- 100) 0 0 (replicate 30000 0) = Inl DivisionByZero
   \<and> crop_pixels (replicate 30000 0) (- 100) (crop_region (- 100) (- 100) 0 (- 100) 0 0) =
       Inr (replicate 30000 0)
   \<and> length (base64_encode (replicate 30000 0)) = 40000"
proof -
  have i: "int32 (- 20) = - 20" "int32 (- 100) = - 100" "int32 (- 1) = - 1" "int32 79 = 79"
    "int32 40 = 40" "int32 41 = 41" "int32 1 = 1" "int32 0 = 0" "int32 9 = 9" "int32 19 = 19"
    "int32 200 = 200" "int32 600 = 600" "int32 10000 = 10000" "int32 30000 = 30000"
    "int32 80 = 80"
    by (simp_all add: int32_def)
  have c1: "crop_region (- 10) (- 20) 800 (- 20) 0 0 =
      \<lparr>clamped_pan_x = 0, clamped_pan_y = 0, crop_x = 0, crop_y = 0, crop_w = - 10, crop_h = - 20\<rparr>"
    by (simp add: crop_region_exact clamp_def)
  have p1: "crop_pixels (replicate 600 0) (- 10)
      \<lparr>clamped_pan_x = 0, clamped_pan_y = 0, crop_x = 0, crop_y = 0, crop_w = - 10, crop_h = - 20\<rparr>
      = Inr (replicate 600 0)"
    by (simp add: crop_pixels_def loop_cells_def vector_of_size_def buffer_size_def mul32_def i)
  have z1: "base64_encode (replicate 600 0) = replicate 800 CHR ''A''"
    using base64_encode_zeros [of 200] by simp
  have s1: "send_chunks (replicate 800 CHR ''A'') 0 cw ch pl =
      [FirstFrame cw ch (cols_needed pl) (rows_needed pl) 0 (replicate 800 CHR ''A'')]" for cw ch pl
    by (subst send_chunks.simps) (simp add: send_chunks_done Let_def)
  have pl1: "place \<lparr>rows = 4, cols = 80, pixel_width = 800, pixel_height = 80\<rparr> 800 (- 20) 0 (- 10) (- 20) =
      Inr \<lparr>cols_needed = 0, rows_needed = 0, col_center = 40, row_center = 1\<rparr>"
    by (simp add: place_def c_div_def add32_def sub32_def i)
  have a: "render_kitty_scaled (get_term_size \<lparr>ws_row = 4, ws_col = 80, ws_xpixel = 0, ws_ypixel = 0\<rparr>)
       0 0 (- 10) (- 20) 0 0 (replicate 600 0) =
     Inr (\<lparr>clamped_pan_x = 0, clamped_pan_y = 0, crop_x = 0, crop_y = 0,
           crop_w = - 10, crop_h = - 20\<rparr>,
          [CursorTo 1 41, FirstFrame (- 10) (- 20) 0 0 0 (replicate 800 CHR ''A'')])"
    unfolding render_kitty_scaled_def example_terminals
    by (simp add: sub32_def add32_def i c1 p1 z1 transmit_def pl1 s1)
  have b: "\<lceil>real_of_int (- 10) / real_of_int (800 div 80)\<rceil> = - 1"
    "\<lceil>real_of_int (- 20) / real_of_int (80 div 4)\<rceil> = - 1"
    by (simp_all add: ceiling_eq_iff)
  have c2: "crop_region (- 100) (- 100) 0 (- 100) 0 0 =
      \<lparr>clamped_pan_x = 0, clamped_pan_y = 0, crop_x = 0, crop_y = 0, crop_w = - 100, crop_h = - 100\<rparr>"
    by (simp add: crop_region_exact clamp_def)
  have p2: "crop_pixels (replicate 30000 0) (- 100) (crop_region (- 100) (- 100) 0 (- 100) 0 0)
      = Inr (replicate 30000 0)"
    by (simp add: c2 crop_pixels_def loop_cells_def vector_of_size_def buffer_size_def mul32_def i)
  have pl2: "place \<lparr>rows = 0, cols = 0, pixel_width = 0, pixel_height = 0\<rparr> tw th co cw ch =
      Inl DivisionByZero" for tw th co cw ch
    by (simp add: place_def c_div_def)
  have d: "render_kitty_scaled (get_term_size \<lparr>ws_row = 0, ws_col = 0, ws_xpixel = 0, ws_ypixel = 0\<rparr>)
       0 0 (- 100) (- 100) 0 0 (replicate 30000 0) = Inl DivisionByZero"
    unfolding render_kitty_scaled_def example_terminals
    by (simp add: sub32_def i p2 transmit_def pl2)
  have e: "length (base64_encode (replicate 30000 0)) = 40000"
    using base64_encode_zeros [of 10000] by simp
  from a b d p2 e show ?thesis by blast
qed

text \<open>
  Claim C5, as amended. For an ordinal in range on an open session whose target position
  is below \<open>2\<^sup>3\<^sup>1\<close>, \<^verbatim>\<open>read_page\<close> frees and reopens the stream exactly when
  the cursor is greater than the target position or the cursor holds the sentinel
  \<open>-1\<close>; it makes no other call that opens or frees a handle.
\<close>

theorem read_page_rewind_condition:
  assumes "p < length (entries s)"
    and "archive_handle s \<noteq> None"
    and "index_in_archive (entries s ! p) < 2 ^ 31"
  shows "calls (fst (read_page fs s p)) =
           calls s @ (if current_entry s > int (index_in_archive (entries s ! p))
                         \<or> current_entry s = - 1
                      then [ReadFree, ReadOpen (archive_path s)] else [])"
  using assms
  by (auto simp: read_page_def Let_def rewind_def to_int_small split: option.splits prod.splits)

text \<open>
  The claim as stated fails on the freshly opened example session: the cursor holds the
  sentinel, it is not greater than the target position of ordinal 0, and
  \<^verbatim>\<open>read_page(0)\<close> rewinds.
\<close>

theorem read_page_rewind_counterexample:
  "current_entry example_session = - 1
   \<and> \<not> current_entry example_session > int (index_in_archive (entries example_session ! 0))
   \<and> calls (fst (read_page example_fs example_session 0)) =
       calls example_session @ [ReadFree, ReadOpen ''a.cbz'']"
  by code_simp

text \<open>
  The amended theorem at two inputs: after ordinal 0 (cursor 1) ordinal 2 (position 3)
  is read without a rewind; after ordinal 5 (cursor 6) ordinal 1 (position 0) is read
  with one.
\<close>

theorem read_page_rewind_condition_witness:
  "calls (fst (read_page example_fs (fst (read_page example_fs example_session 0)) 2)) =
     calls (fst (read_page example_fs example_session 0))
   \<and> calls (fst (read_page example_fs (fst (read_page example_fs example_session 5)) 1)) =
     calls (fst (read_page example_fs example_session 5)) @ [ReadFree, ReadOpen ''a.cbz'']"
proof -
  define s1 where "s1 = fst (read_page example_fs example_session 0)"
  define s5 where "s5 = fst (read_page example_fs example_session 5)"
  have s1: "s1 = example_session\<lparr>archive_handle := Some (drop 2 example_archive), current_entry := 1,
     calls := calls example_session @ [ReadFree, ReadOpen ''a.cbz'']\<rparr>"
    unfolding s1_def by code_simp
  have s5: "s5 = example_session\<lparr>archive_handle := Some [], current_entry := 6,
     calls := calls example_session @ [ReadFree, ReadOpen ''a.cbz'']\<rparr>"
    unfolding s5_def by code_simp
  have a: "2 < length (entries s1)" "archive_handle s1 \<noteq> None"
    "index_in_archive (entries s1 ! 2) < 2 ^ 31"
    "\<not> (current_entry s1 > int (index_in_archive (entries s1 ! 2)) \<or> current_entry s1 = - 1)"
    by (simp_all add: s1 example_session_def)
  have b: "1 < length (entries s5)" "archive_handle s5 \<noteq> None"
    "index_in_archive (entries s5 ! 1) < 2 ^ 31"
    "current_entry s5 > int (index_in_archive (entries s5 ! 1)) \<or> current_entry s5 = - 1"
    "archive_path s5 = ''a.cbz''"
    by (simp_all add: s5 example_session_def)
  have "calls (fst (read_page example_fs s1 2)) = calls s1"
    using read_page_rewind_condition [OF a(1) a(2) a(3), of example_fs] a(4) by simp
  moreover have "calls (fst (read_page example_fs s5 1)) = calls s5 @ [ReadFree, ReadOpen ''a.cbz'']"
    using read_page_rewind_condition [OF b(1) b(2) b(3), of example_fs] b(4) b(5) by simp
  ultimately show ?thesis unfolding s1_def s5_def by simp
qed

text \<open>
  Claim C6, as amended. In the comic view, let spread mode be off, or active and eligible,
  and let the current ordinal be in \<open>[0, page_count - 1]\<close>; the step is 2 when spread
  mode is active and eligible and 1 otherwise. The key bound to \<^verbatim>\<open>prev\<close> and the left
  arrow retreat the ordinal by the step, clamped into \<open>[0, page_count - 1]\<close>. The key
  bound to \<^verbatim>\<open>next\<close> and the right arrow advance the ordinal by the step when the sum
  is below the page count, and leave the ordinal where it is otherwise: a move that
  would pass the last page is not made. The resulting ordinal is in
  \<open>[0, page_count - 1]\<close>.
\<close>

theorem viewing_page_step:
  assumes spread: "double_page (config st) = spread_eligible st"
    and range: "0 \<le> current_page st" "current_page st < int (page_count (archive st))"
  shows "(c \<noteq> CHR 0x1b \<and> c = key_of (config st) ''next'' \<and> c \<noteq> key_of (config st) ''prev''
        \<and> c \<noteq> key_of (config st) ''first_page'' \<and> c \<noteq> key_of (config st) ''last_page''
      \<longrightarrow> current_page (fst (view_key st c inp)) =
            (if current_page st + spec_step st < int (page_count (archive st))
             then spec_next_page st else current_page st))
   \<and> (c \<noteq> CHR 0x1b \<and> c = key_of (config st) ''prev'' \<and> c \<noteq> key_of (config st) ''next''
        \<and> c \<noteq> key_of (config st) ''first_page'' \<and> c \<noteq> key_of (config st) ''last_page''
      \<longrightarrow> current_page (fst (view_key st c inp)) = spec_prev_page st)
   \<and> current_page (fst (view_key st (CHR 0x1b) (CHR ''['' # CHR ''C'' # inp))) =
         (if current_page st + spec_step st < int (page_count (archive st))
          then spec_next_page st else current_page st)
   \<and> current_page (fst (view_key st (CHR 0x1b) (CHR ''['' # CHR ''D'' # inp))) = spec_prev_page st
   \<and> 0 \<le> (if current_page st + spec_step st < int (page_count (archive st))
            then spec_next_page st else current_page st)
   \<and> (if current_page st + spec_step st < int (page_count (archive st))
       then spec_next_page st else current_page st) < int (page_count (archive st))
   \<and> 0 \<le> spec_prev_page st \<and> spec_prev_page st < int (page_count (archive st))"
proof -
  note m = spec_moves [OF spread range]
  note k = view_key_page [of st c inp, unfolded m(2) m(3)]
  show ?thesis using k range unfolding m(2) [symmetric] m(3) [symmetric] by blast
qed

text \<open>
  The claim as stated fails on the example archive of 6 pages. With the double-page flag
  set, the Kitty renderer and zoom 1 the spread is eligible; from ordinal 4 the claim gives
  \<open>4 + 2\<close> clamped to 5, the code stays on 4.
\<close>

theorem viewing_page_step_counterexample:
  "spread_eligible (example_reader\<lparr>current_page := 4,
       config := default_config\<lparr>double_page := True\<rparr>\<rparr>)
   \<and> current_page (fst (view_key (example_reader\<lparr>current_page := 4,
       config := default_config\<lparr>double_page := True\<rparr>\<rparr>) (CHR ''l'') [])) = 4
   \<and> spec_next_page (example_reader\<lparr>current_page := 4,
       config := default_config\<lparr>double_page := True\<rparr>\<rparr>) = 5"
  by (simp add: spread_eligible_def spec_next_page_def spec_step_def view_key_def page_step_def
      key_of_def default_config_def default_keymap_def example_reader_def new_comic_reader_def
      page_count_def example_session_def Let_def leave_view_def redraw_if_def do_pan_def
      zoomed_def)

text \<open>
  The amended claim on the example archive: with an eligible spread forward from 0,
  backward from 3 and forward from 4, and with a single page forward from the last page.
\<close>

theorem viewing_page_step_witness:
  "current_page (fst (view_key (example_reader\<lparr>config := default_config\<lparr>double_page := True\<rparr>\<rparr>)
      (CHR ''l'') [])) = 2
   \<and> current_page (fst (view_key (example_reader\<lparr>current_page := 3,
         config := default_config\<lparr>double_page := True\<rparr>\<rparr>) (CHR ''h'') [])) = 1
   \<and> current_page (fst (view_key (example_reader\<lparr>current_page := 4,
         config := default_config\<lparr>double_page := True\<rparr>\<rparr>) (CHR ''l'') [])) = 4
   \<and> current_page (fst (view_key (example_reader\<lparr>current_page := 5\<rparr>) (CHR ''l'') [])) = 5"
proof -
  note ev = key_of_def default_config_def default_keymap_def example_reader_def
    new_comic_reader_def page_count_def example_session_def spread_eligible_def
    spec_step_def spec_next_page_def spec_prev_page_def
  have a: "current_page (fst (view_key (example_reader\<lparr>config := default_config\<lparr>double_page := True\<rparr>\<rparr>)
      (CHR ''l'') [])) = 2"
    using viewing_page_step [of "example_reader\<lparr>config := default_config\<lparr>double_page := True\<rparr>\<rparr>"
        "CHR ''l''" "[]"]
    by (simp add: ev)
  have b: "current_page (fst (view_key (example_reader\<lparr>current_page := 3,
         config := default_config\<lparr>double_page := True\<rparr>\<rparr>) (CHR ''h'') [])) = 1"
    using viewing_page_step [of "example_reader\<lparr>current_page := 3,
         config := default_config\<lparr>double_page := True\<rparr>\<rparr>" "CHR ''h''" "[]"]
    by (simp add: ev)
  have c: "current_page (fst (view_key (example_reader\<lparr>current_page := 4,
         config := default_config\<lparr>double_page := True\<rparr>\<rparr>) (CHR ''l'') [])) = 4"
    using viewing_page_step [of "example_reader\<lparr>current_page := 4,
         config := default_config\<lparr>double_page := True\<rparr>\<rparr>" "CHR ''l''" "[]"]
    by (simp add: ev)
  have d: "current_page (fst (view_key (example_reader\<lparr>current_page := 5\<rparr>) (CHR ''l'') [])) = 5"
    using viewing_page_step [of "example_reader\<lparr>current_page := 5\<rparr>" "CHR ''l''" "[]"]
    by (simp add: ev)
  from a b c d show ?thesis by simp
qed

text \<open>
  Claim C7, at the input where the code leaves it. The progress record holds \<open>-1\<close> for
  \<^verbatim>\<open>a.cbz\<close>, an ordinal out of range; Enter on \<^verbatim>\<open>a.cbz\<close> opens the archive of 6
  pages, the reader is viewing, and the current page is \<open>-1\<close>, where the claim says 0.
\<close>

theorem browse_enter_negative_progress:
  "\<exists>st. browse_enter example_world (browsing_reader\<lparr>progress := [''a.cbz'' \<mapsto> - 1]\<rparr>) =
           Inr (st, DrawComicView)
        \<and> viewing_comic st \<and> page_count (archive st) = 6 \<and> current_page st = - 1"
proof -
  define st0 where "st0 = browsing_reader\<lparr>progress := [''a.cbz'' \<mapsto> - 1]\<rparr>"
  have a: "selected_idx st0 = int 0" "0 < length (file_entries st0)"
    "\<not> is_directory (file_entries st0 ! 0)"
    "ar_open (archives example_world) (archive st0) (full_path (file_entries st0 ! 0)) =
       Inr (example_session, True)"
    by (simp_all add: st0_def browsing_reader_def new_comic_reader_def example_world_def
        example_open)
  have p: "progress st0 (file_name (file_entries st0 ! 0)) = Some (- 1)"
    by (simp add: st0_def browsing_reader_def new_comic_reader_def)
  have n: "page_count example_session = 6" by (simp add: page_count_def example_session_def)
  from browse_enter_archive(1) [OF a] show ?thesis
    unfolding st0_def [symmetric] by (auto simp: p n)
qed

text \<open>
  Claim C8. Indexing an archive whose entries are named \<^verbatim>\<open>page2.jpg\<close>,
  \<^verbatim>\<open>page10.jpg\<close>, \<^verbatim>\<open>page1.jpg\<close> (in this stream order, whatever their
  payloads) succeeds and gives the ordinal order \<^verbatim>\<open>page1.jpg\<close>, \<^verbatim>\<open>page2.jpg\<close>,
  \<^verbatim>\<open>page10.jpg\<close>. The comparator puts \<^verbatim>\<open>page2.jpg\<close> before
  \<^verbatim>\<open>page10.jpg\<close>: it compares the digit runs 2 and 10 as numbers, where the
  characters \<^verbatim>\<open>2\<close> and \<^verbatim>\<open>1\<close> would give the opposite order. The order does not
  depend on the sorting algorithm: it is the only permutation of the index in which no
  later entry compares less than an earlier one.
\<close>

theorem natural_order_of_pages:
  assumes "fs path = Some
     [\<lparr>pathname = ''page2.jpg'', entry_size = n2, entry_data = d2\<rparr>,
      \<lparr>pathname = ''page10.jpg'', entry_size = n10, entry_data = d10\<rparr>,
      \<lparr>pathname = ''page1.jpg'', entry_size = n1, entry_data = d1\<rparr>]"
  shows "(\<exists>s. ar_open fs s0 path = Inr (s, True)
           \<and> map name (entries s) = [''page1.jpg'', ''page2.jpg'', ''page10.jpg'']
           \<and> map index_in_archive (entries s) = [2, 0, 1])
       \<and> natural_sort_compare ''page2.jpg'' ''page10.jpg'' = Inr True
       \<and> natural_sort_compare ''page10.jpg'' ''page2.jpg'' = Inr False
       \<and> (\<forall>ys. mset ys = mset (index_entries (the (fs path)) 0)
             \<and> sorted_wrt (\<lambda>a b. natural_sort_compare (name b) (name a) = Inr False) ys
             \<longrightarrow> map name ys = [''page1.jpg'', ''page2.jpg'', ''page10.jpg''])"
proof -
  have "\<exists>s. ar_open fs s0 path = Inr (s, True)
           \<and> map name (entries s) = [''page1.jpg'', ''page2.jpg'', ''page10.jpg'']
           \<and> map index_in_archive (entries s) = [2, 0, 1]"
    using assms
    by (simp add: ar_open_def Let_def compare_page_names page_names_are_images open_handle_def)
  moreover have "index_entries (the (fs path)) 0 =
      [\<lparr>name = ''page2.jpg'', index_in_archive = 0\<rparr>,
       \<lparr>name = ''page10.jpg'', index_in_archive = 1\<rparr>,
       \<lparr>name = ''page1.jpg'', index_in_archive = 2\<rparr>]"
    using assms by (simp add: page_names_are_images)
  ultimately show ?thesis
    using sorted_pages_unique by (simp add: compare_page_names)
qed

text \<open>The theorem on the archive \<^verbatim>\<open>pages.cbz\<close> of the example file system.\<close>

theorem natural_order_of_pages_witness:
  "\<exists>s. ar_open example_fs new_reader ''pages.cbz'' = Inr (s, True)
         \<and> map name (entries s) = [''page1.jpg'', ''page2.jpg'', ''page10.jpg'']
         \<and> map index_in_archive (entries s) = [2, 0, 1]"
proof -
  have "example_fs ''pages.cbz'' = Some
     [\<lparr>pathname = ''page2.jpg'', entry_size = 1, entry_data = Some [2]\<rparr>,
      \<lparr>pathname = ''page10.jpg'', entry_size = 1, entry_data = Some [10]\<rparr>,
      \<lparr>pathname = ''page1.jpg'', entry_size = 1, entry_data = Some [1]\<rparr>]"
    by (simp add: example_fs_def pages_archive_def)
  from natural_order_of_pages
         [where fs = example_fs and path = "''pages.cbz''" and ?s0.0 = new_reader, OF this]
  show ?thesis by (rule conjunct1)
qed

text \<open>
  Claim C9. For every ordinal present in the page cache, \<^verbatim>\<open>load_page\<close> returns the
  cached bytes and leaves the whole reader state, the cache map included, unchanged:
  nothing is inserted and nothing is evicted, so an entry at distance above 2 from the
  requested ordinal stays cached.
\<close>

theorem load_page_hit_unchanged:
  assumes "page_cache st p = Some d"
  shows "load_page fs st p = (st, d)
       \<and> (\<forall>k v. \<bar>k - p\<bar> > 2 \<and> page_cache st k = Some v
              \<longrightarrow> page_cache (fst (load_page fs st p)) k = Some v)"
  using assms by (simp add: load_page_def)

text \<open>The theorem on a cache that holds the ordinals 0 and 5, at a hit on 0.\<close>

theorem load_page_hit_unchanged_witness:
  "load_page example_fs (new_comic_reader\<lparr>page_cache := [0 \<mapsto> [1], 5 \<mapsto> [6]]\<rparr>) 0 =
     (new_comic_reader\<lparr>page_cache := [0 \<mapsto> [1], 5 \<mapsto> [6]]\<rparr>, [1])
   \<and> page_cache (fst (load_page example_fs
         (new_comic_reader\<lparr>page_cache := [0 \<mapsto> [1], 5 \<mapsto> [6]]\<rparr>) 0)) 5 = Some [6]"
proof -
  define st where "st = new_comic_reader\<lparr>page_cache := [0 \<mapsto> [1], 5 \<mapsto> [6]]\<rparr>"
  have h: "page_cache st 0 = Some [1]" and f: "page_cache st 5 = Some [6]" "\<bar>5 - (0::int)\<bar> > 2"
    by (simp_all add: st_def)
  from load_page_hit_unchanged [OF h, of example_fs] f
  show ?thesis unfolding st_def [symmetric] by blast
qed

end
